theory Spec2Isabelle
  imports Main "HOL-Library.AList"
begin

section \<open>JavaScript strings\<close>

text \<open>
  Strings are lists of 8-bit characters; the development covers ASCII text. The
  white space of \<open>\s\<close> and of \<open>trim\<close> is then tab, line feed, vertical tab, form
  feed, carriage return and space.
\<close>

definition is_space :: "char \<Rightarrow> bool" where
  "is_space c = (c \<in> set [CHR 0x09, CHR 0x0A, CHR 0x0B, CHR 0x0C, CHR 0x0D, CHR 0x20])"

definition in_cls :: "string \<Rightarrow> char \<Rightarrow> bool" where
  "in_cls cs c = (c \<in> set cs)"

definition not_cls :: "string \<Rightarrow> char \<Rightarrow> bool" where
  "not_cls cs c = (c \<notin> set cs)"

definition upper_chars :: string where
  "upper_chars = ''ABCDEFGHIJKLMNOPQRSTUVWXYZ''"

definition lower_chars :: string where
  "lower_chars = ''abcdefghijklmnopqrstuvwxyz''"

definition digit_chars :: string where
  "digit_chars = ''0123456789''"

text \<open>\<open>s.startsWith(p)\<close>\<close>

definition startsWith :: "string \<Rightarrow> string \<Rightarrow> bool" where
  "startsWith s p = (take (length p) s = p)"

text \<open>\<open>s.split(d)\<close> for a one-character separator: never an empty array.\<close>

fun split_on :: "char \<Rightarrow> string \<Rightarrow> string list" where
  "split_on d [] = [[]]"
| "split_on d (c # cs) =
     (if c = d then [] # split_on d cs
      else (case split_on d cs of [] \<Rightarrow> [[c]] | w # ws \<Rightarrow> (c # w) # ws))"

text \<open>
  \<open>xs.pop() || d\<close>: the last element, or \<open>d\<close> when the array is empty
  (\<open>undefined\<close>) or its last element is the empty string (both falsy).
\<close>

definition pop_or :: "string list \<Rightarrow> string \<Rightarrow> string" where
  "pop_or xs d = (case rev xs of [] \<Rightarrow> d | x # _ \<Rightarrow> if x = [] then d else x)"

text \<open>\<open>s.replace(pat, rep)\<close> with a string pattern: the first occurrence only.\<close>

fun replace_first :: "string \<Rightarrow> string \<Rightarrow> string \<Rightarrow> string" where
  "replace_first pat rep [] = (if pat = [] then rep else [])"
| "replace_first pat rep (c # cs) =
     (if startsWith (c # cs) pat then rep @ drop (length pat) (c # cs)
      else c # replace_first pat rep cs)"

text \<open>\<open>s.trim()\<close>\<close>

definition trim :: "string \<Rightarrow> string" where
  "trim s = rev (dropWhile is_space (rev (dropWhile is_space s)))"

text \<open>
  \<open>c.toUpperCase()\<close> on one ASCII character: a lower-case letter becomes the
  upper-case one, every other character stays.
\<close>

definition toUpperCase_char :: "char \<Rightarrow> char" where
  "toUpperCase_char c =
     (case map_of (zip lower_chars upper_chars) c of Some u \<Rightarrow> u | None \<Rightarrow> c)"

text \<open>\<open>s.toLowerCase()\<close> on ASCII text.\<close>

definition toLowerCase_char :: "char \<Rightarrow> char" where
  "toLowerCase_char c =
     (case map_of (zip upper_chars lower_chars) c of Some l \<Rightarrow> l | None \<Rightarrow> c)"

definition toLowerCase :: "string \<Rightarrow> string" where
  "toLowerCase s = map toLowerCase_char s"

text \<open>The decimal digits of a number, as \<open>String(n)\<close> gives them.\<close>

function show_nat :: "nat \<Rightarrow> string" where
  "show_nat n = (if n < 10 then [digit_chars ! n] else show_nat (n div 10) @ [digit_chars ! (n mod 10)])"
  by pat_completeness auto
termination
  by (relation "measure id") auto

section \<open>JavaScript values\<close>

text \<open>
  What a response body is once axios has handled it: the value the body denotes
  when the body is JSON text, and the body itself, a string, otherwise. A number is
  kept as the text \<open>String\<close> gives for it; the keys of an object are distinct.
\<close>

datatype json =
    JNull
  | JBool bool
  | JNumber string
  | JString string
  | JArray "json list"
  | JObject "(string \<times> json) list"

text \<open>
  \<open>String(v)\<close>, the conversion \<open>JSON.parse\<close> applies to its argument: a string
  is itself, an object is \<open>[object Object]\<close>, an array is its elements joined by
  commas, \<open>null\<close> inside an array being empty.
\<close>

fun js_join :: "string list \<Rightarrow> string" where
  "js_join [] = []"
| "js_join [x] = x"
| "js_join (x # xs) = x @ '','' @ js_join xs"

fun js_str :: "bool \<Rightarrow> json \<Rightarrow> string" where
  "js_str in_array JNull = (if in_array then [] else ''null'')"
| "js_str in_array (JBool b) = (if b then ''true'' else ''false'')"
| "js_str in_array (JNumber t) = t"
| "js_str in_array (JString s) = s"
| "js_str in_array (JArray xs) = js_join (map (js_str True) xs)"
| "js_str in_array (JObject kv) = ''[object Object]''"

definition js_toString :: "json \<Rightarrow> string" where
  "js_toString v = js_str False v"

text \<open>\<open>if (v)\<close>\<close>

fun truthy :: "json \<Rightarrow> bool" where
  "truthy JNull = False"
| "truthy (JBool b) = b"
| "truthy (JNumber t) = (t \<noteq> ''0'')"
| "truthy (JString s) = (s \<noteq> [])"
| "truthy (JArray xs) = True"
| "truthy (JObject kv) = True"

text \<open>\<open>v.length\<close> for a value other than \<open>null\<close>; \<open>None\<close> is \<open>undefined\<close>.\<close>

fun js_length :: "json \<Rightarrow> json option" where
  "js_length (JString s) = Some (JNumber (show_nat (length s)))"
| "js_length (JArray xs) = Some (JNumber (show_nat (length xs)))"
| "js_length (JObject kv) = map_of kv ''length''"
| "js_length v = None"

section \<open>Regular expressions\<close>

text \<open>
  The patterns of the source use literals, character classes, greedy \<open>*\<close>, \<open>+\<close>
  on a character class, greedy \<open>?\<close>, alternation, non-capturing groups and one
  capturing group each. \<open>bt\<close> is the backtracking matcher of JavaScript on these:
  it tries the alternatives in priority order (a greedy quantifier the longest
  first) and hands the rest of the input and the capture to the continuation, which
  may refuse and so make the matcher try the next alternative.
\<close>

datatype rx =
    Lit string
  | One "char \<Rightarrow> bool"
  | Star "char \<Rightarrow> bool"
  | Plus "char \<Rightarrow> bool"
  | Seq rx rx
  | Alt rx rx
  | Opt rx
  | Cap rx

fun star :: "(char \<Rightarrow> bool) \<Rightarrow> string \<Rightarrow> (string \<Rightarrow> 'a option) \<Rightarrow> 'a option" where
  "star p [] k = k []"
| "star p (x # xs) k =
     (if p x then (case star p xs k of Some r \<Rightarrow> Some r | None \<Rightarrow> k (x # xs))
      else k (x # xs))"

fun bt :: "rx \<Rightarrow> string \<Rightarrow> string option \<Rightarrow> (string \<Rightarrow> string option \<Rightarrow> 'a option) \<Rightarrow> 'a option" where
  "bt (Lit l) s c k = (if startsWith s l then k (drop (length l) s) c else None)"
| "bt (One p) s c k = (case s of [] \<Rightarrow> None | x # xs \<Rightarrow> if p x then k xs c else None)"
| "bt (Star p) s c k = star p s (\<lambda>s'. k s' c)"
| "bt (Plus p) s c k =
     (case s of [] \<Rightarrow> None | x # xs \<Rightarrow> if p x then star p xs (\<lambda>s'. k s' c) else None)"
| "bt (Seq a b) s c k = bt a s c (\<lambda>s' c'. bt b s' c' k)"
| "bt (Alt a b) s c k = (case bt a s c k of Some r \<Rightarrow> Some r | None \<Rightarrow> bt b s c k)"
| "bt (Opt a) s c k = (case bt a s c k of Some r \<Rightarrow> Some r | None \<Rightarrow> k s c)"
| "bt (Cap a) s c k = bt a s c (\<lambda>s' _. k s' (Some (take (length s - length s') s)))"

text \<open>A match at the start of \<open>s\<close>: its length and the text of capture group 1.\<close>

definition match_here :: "rx \<Rightarrow> string \<Rightarrow> (nat \<times> string option) option" where
  "match_here r s = bt r s None (\<lambda>s' c. Some (length s - length s', c))"

text \<open>
  The leftmost match in \<open>s\<close>: the number of characters before it, its length and
  its capture.
\<close>

fun search :: "rx \<Rightarrow> string \<Rightarrow> (nat \<times> nat \<times> string option) option" where
  "search r [] = (case match_here r [] of Some (n, c) \<Rightarrow> Some (0, n, c) | None \<Rightarrow> None)"
| "search r (x # xs) =
     (case match_here r (x # xs) of
        Some (n, c) \<Rightarrow> Some (0, n, c)
      | None \<Rightarrow> (case search r xs of Some (i, n, c) \<Rightarrow> Some (Suc i, n, c) | None \<Rightarrow> None))"

text \<open>
  What a pattern matches, stated without the matcher: \<open>sem r u c c'\<close> says that
  \<open>r\<close> matches the text \<open>u\<close> and turns the capture \<open>c\<close> into \<open>c'\<close>.
\<close>

fun sem :: "rx \<Rightarrow> string \<Rightarrow> string option \<Rightarrow> string option \<Rightarrow> bool" where
  "sem (Lit l) u c c' = (u = l \<and> c' = c)"
| "sem (One p) u c c' = ((\<exists>x. u = [x] \<and> p x) \<and> c' = c)"
| "sem (Star p) u c c' = (list_all p u \<and> c' = c)"
| "sem (Plus p) u c c' = (u \<noteq> [] \<and> list_all p u \<and> c' = c)"
| "sem (Seq a b) u c c' = (\<exists>u1 u2 c1. u = u1 @ u2 \<and> sem a u1 c c1 \<and> sem b u2 c1 c')"
| "sem (Alt a b) u c c' = (sem a u c c' \<or> sem b u c c')"
| "sem (Opt a) u c c' = ((u = [] \<and> c' = c) \<or> sem a u c c')"
| "sem (Cap a) u c c' = ((\<exists>c1. sem a u c c1) \<and> c' = Some u)"

lemma startsWith_append: "startsWith s l \<Longrightarrow> s = l @ drop (length l) s"
  unfolding startsWith_def by (metis append_take_drop_id)

lemma star_sound:
  "star p s k = Some r \<Longrightarrow> \<exists>u s'. s = u @ s' \<and> list_all p u \<and> k s' = Some r"
proof (induction s)
  case Nil
  then show ?case by auto
next
  case (Cons x xs)
  show ?case
  proof (cases "p x \<and> star p xs k \<noteq> None")
    case True
    with Cons.prems have "star p xs k = Some r" by auto
    from Cons.IH [OF this] obtain u s' where "xs = u @ s'" "list_all p u" "k s' = Some r"
      by blast
    with True have "x # xs = (x # u) @ s' \<and> list_all p (x # u) \<and> k s' = Some r" by simp
    then show ?thesis by blast
  next
    case False
    with Cons.prems have "k (x # xs) = Some r" by (auto split: if_splits)
    then have "x # xs = [] @ (x # xs) \<and> list_all p [] \<and> k (x # xs) = Some r" by simp
    then show ?thesis by blast
  qed
qed

lemma bt_sound:
  "bt r s c k = Some res \<Longrightarrow> \<exists>u s' c'. s = u @ s' \<and> sem r u c c' \<and> k s' c' = Some res"
proof (induction r arbitrary: s c k)
  case (Lit l)
  then have "startsWith s l" "k (drop (length l) s) c = Some res" by (auto split: if_splits)
  then have "s = l @ drop (length l) s \<and> sem (Lit l) l c c \<and> k (drop (length l) s) c = Some res"
    using startsWith_append by auto
  then show ?case by blast
next
  case (One p)
  then obtain x xs where "s = x # xs" "p x" "k xs c = Some res"
    by (auto split: list.splits if_splits)
  then have "s = [x] @ xs \<and> sem (One p) [x] c c \<and> k xs c = Some res" by simp
  then show ?case by blast
next
  case (Star p)
  then have "star p s (\<lambda>s'. k s' c) = Some res" by simp
  from star_sound [OF this] obtain u s' where "s = u @ s'" "list_all p u" "k s' c = Some res"
    by blast
  then have "s = u @ s' \<and> sem (Star p) u c c \<and> k s' c = Some res" by simp
  then show ?case by blast
next
  case (Plus p)
  then obtain x xs where x: "s = x # xs" "p x" "star p xs (\<lambda>s'. k s' c) = Some res"
    by (auto split: list.splits if_splits)
  from star_sound [OF x(3)] obtain u s' where "xs = u @ s'" "list_all p u" "k s' c = Some res"
    by blast
  with x have "s = (x # u) @ s' \<and> sem (Plus p) (x # u) c c \<and> k s' c = Some res" by simp
  then show ?case by blast
next
  case (Seq a b)
  from Seq.prems obtain u1 s1 c1 where
    a: "s = u1 @ s1" "sem a u1 c c1" "bt b s1 c1 k = Some res"
    using Seq.IH(1) [of s c "\<lambda>s' c'. bt b s' c' k"] by auto
  from Seq.IH(2) [OF a(3)] obtain u2 s2 c2 where
    b: "s1 = u2 @ s2" "sem b u2 c1 c2" "k s2 c2 = Some res" by blast
  from a b have "s = (u1 @ u2) @ s2 \<and> sem (Seq a b) (u1 @ u2) c c2 \<and> k s2 c2 = Some res"
    by auto
  then show ?case by blast
next
  case (Alt a b)
  then have "bt a s c k = Some res \<or> bt b s c k = Some res" by (auto split: option.splits)
  then show ?case using Alt.IH by fastforce
next
  case (Opt a)
  then have "bt a s c k = Some res \<or> k s c = Some res" by (auto split: option.splits)
  then show ?case
  proof
    assume "bt a s c k = Some res"
    from Opt.IH [OF this] show ?thesis by fastforce
  next
    assume "k s c = Some res"
    then have "s = [] @ s \<and> sem (Opt a) [] c c \<and> k s c = Some res" by simp
    then show ?thesis by blast
  qed
next
  case (Cap a)
  from Cap.prems obtain u s' c' where
    a: "s = u @ s'" "sem a u c c'" "k s' (Some (take (length s - length s') s)) = Some res"
    using Cap.IH [of s c "\<lambda>s' _. k s' (Some (take (length s - length s') s))"] by auto
  then have "s = u @ s' \<and> sem (Cap a) u c (Some u) \<and> k s' (Some u) = Some res" by auto
  then show ?case by blast
qed

lemma match_here_sound:
  assumes "match_here r s = Some (n, c)"
  shows "n \<le> length s \<and> sem r (take n s) None c"
proof -
  from assms obtain u s' c' where
    "s = u @ s'" "sem r u None c'" "Some (length s - length s', c') = Some (n, c)"
    unfolding match_here_def using bt_sound [of r s None "\<lambda>s' c. Some (length s - length s', c)"]
    by auto
  then show ?thesis by auto
qed

lemma search_sound:
  "search r s = Some (i, n, c) \<Longrightarrow> i + n \<le> length s \<and> sem r (take n (drop i s)) None c"
proof (induction s arbitrary: i)
  case Nil
  then show ?case by (auto split: option.splits dest: match_here_sound)
next
  case (Cons x xs)
  show ?case
  proof (cases "match_here r (x # xs)")
    case None
    with Cons.prems obtain i' where "search r xs = Some (i', n, c)" "i = Suc i'"
      by (auto split: option.splits)
    with Cons.IH [of i'] show ?thesis by simp
  next
    case (Some a)
    with Cons.prems have "match_here r (x # xs) = Some (n, c)" "i = 0"
      by (auto split: option.splits)
    then show ?thesis using match_here_sound [of r "x # xs" n c] by simp
  qed
qed

lemma search_le: "search r s = Some (i, n, c) \<Longrightarrow> i + n \<le> length s"
  by (simp add: search_sound)

text \<open>
  The loop \<open>match = pattern.exec(text); while (match !== null) { ...; match =
  pattern.exec(text) }\<close> of a pattern with the \<open>g\<close> flag: each search starts where
  the last match ended. After an empty match the next search finds the same match
  again, and the loop of the source never ends: the value is then \<open>None\<close>.
  Otherwise the list of \<open>(match[0], match[1])\<close>.
\<close>

function exec_loop :: "rx \<Rightarrow> string \<Rightarrow> (string \<times> string option) list option" where
  "exec_loop r s =
     (case search r s of
        None \<Rightarrow> Some []
      | Some (i, n, c) \<Rightarrow>
          if n = 0 then None
          else (case exec_loop r (drop (i + n) s) of
                  None \<Rightarrow> None
                | Some ms \<Rightarrow> Some ((take n (drop i s), c) # ms)))"
  by pat_completeness auto
termination
  by (relation "measure (\<lambda>(r, s). length s)") (auto dest: search_le)

text \<open>
  \<open>s.replace(pattern, rep)\<close> for a pattern with the \<open>g\<close> flag and a replacement
  without \<open>$\<close>: every match, left to right, is replaced; after an empty match one
  character is copied.
\<close>

function replace_all :: "rx \<Rightarrow> string \<Rightarrow> string \<Rightarrow> string" where
  "replace_all r rep s =
     (case search r s of
        None \<Rightarrow> s
      | Some (i, n, c) \<Rightarrow>
          take i s @ rep @
          (if n = 0 then (if i < length s then s ! i # replace_all r rep (drop (Suc i) s) else [])
           else replace_all r rep (drop (i + n) s)))"
  by pat_completeness auto
termination
  by (relation "measure (\<lambda>(r, rep, s). length s)") (auto dest: search_le)

section \<open>Data model\<close>

datatype bundle_type = JS | CSS

record BundleInfo =
  url :: string
  type :: bundle_type
  filename :: string

record ExtractedComponent =
  name :: string
  code :: string
  source :: string

record ModuleInfo =
  "identifier" :: string
  match :: string
  source :: string

text \<open>
  A parsed source map. \<open>None\<close> is an absent property; an element that is absent,
  \<open>null\<close> or empty is the empty string (all of them falsy). The properties the
  program never reads are left out.
\<close>

record SourceMapInfo =
  sources :: "string list option"
  sourcesContent :: "string list option"

record analysis_summary =
  jsFiles :: nat
  cssFiles :: nat
  components :: nat
  modules :: nat

text \<open>
  An object used as a dictionary is an association list with distinct keys in
  insertion order: \<open>obj[k] = v\<close> is \<^const>\<open>AList.update\<close>, a read is
  \<^const>\<open>map_of\<close>. The keys are the properties the program stored; a key that
  names a property every object inherits (\<open>constructor\<close>, \<open>toString\<close>) is not
  covered.
\<close>

type_synonym files = "(string \<times> json) list"

text \<open>
  The body of a job submission; a property that is absent is the empty string
  (both falsy).
\<close>

record DecompilationRequest =
  url :: string
  jobId :: string

text \<open>The \<open>results\<close> of a successful submission: the counters and two more.\<close>

record submission_results = analysis_summary +
  bundles :: nat
  files :: nat

record DecompilationResult =
  jobId :: string
  url :: string
  timestamp :: nat
  bundles :: "BundleInfo list"
  components :: "ExtractedComponent list"
  modules :: "ModuleInfo list"
  originalFiles :: files
  beautifiedFiles :: files
  analysis :: analysis_summary

section \<open>The world outside\<close>

record http_response =
  status :: nat
  data :: json

text \<open>An element of the parsed root document.\<close>

record html_element =
  tag :: string
  attrs :: "(string \<times> string) list"

text \<open>
  The libraries and the network, as parameters of the program:
  \<^item> \<open>http_get timeout browser url\<close> is \<open>axios.get\<close> with that timeout (ms), with
    or without the browser \<open>User-Agent\<close> header: \<open>None\<close> when it throws; the
    \<open>data\<close> of the response is the body as axios hands it over, parsed when it
    is JSON text;
  \<^item> \<open>parse_html\<close> is \<open>cheerio.load\<close>: the elements of the document, in document
    order, tag and attribute names in lower case; \<open>None\<close> when it throws;
  \<^item> \<open>url_resolve ref base\<close> is \<open>new URL(ref, base).href\<close> and \<open>url_valid s\<close> says
    that \<open>new URL(s)\<close> returns; \<open>None\<close> when the constructor throws;
  \<^item> \<open>beautify\<close> is js-beautify with the options of the source, \<open>None\<close> when it
    throws;
  \<^item> \<open>parse_source_map\<close> is \<open>JSON.parse\<close> on a text, \<open>None\<close> when it throws or
    the value has no properties to read;
  \<^item> \<open>now\<close> is \<open>Date.now()\<close>.
  The world is a function: a URL fetched twice gives the same answer twice.
\<close>

record env =
  http_get :: "nat \<Rightarrow> bool \<Rightarrow> string \<Rightarrow> http_response option"
  parse_html :: "json \<Rightarrow> html_element list option"
  url_resolve :: "string \<Rightarrow> string \<Rightarrow> string option"
  url_valid :: "string \<Rightarrow> bool"
  beautify :: "json \<Rightarrow> string option"
  parse_source_map :: "string \<Rightarrow> SourceMapInfo option"
  now :: nat

section \<open>WebDecompiler\<close>

text \<open>
  The methods of the class read \<open>baseUrl\<close>, which never changes, and mutate
  \<open>results\<close>: each takes the record and returns the new one. \<open>baseUrl\<close> is the
  \<open>url\<close> of the record.
\<close>

definition new_results :: "env \<Rightarrow> string \<Rightarrow> string \<Rightarrow> DecompilationResult" where
  "new_results e u j =
     \<lparr>jobId = j, url = u, timestamp = now e, bundles = [], components = [], modules = [],
      originalFiles = [], beautifiedFiles = [],
      analysis = \<lparr>jsFiles = 0, cssFiles = 0, analysis_summary.components = 0,
                  analysis_summary.modules = 0\<rparr>\<rparr>"

subsection \<open>analyzeHTML\<close>

text \<open>
  \<open>$('script[src]')\<close> and \<open>$('link[rel="stylesheet"]')\<close>. In an HTML document
  the selector compares the value of \<open>rel\<close> without regard to case.
\<close>

definition select_script_src :: "html_element list \<Rightarrow> html_element list" where
  "select_script_src doc =
     filter (\<lambda>el. tag el = ''script'' \<and> map_of (attrs el) ''src'' \<noteq> None) doc"

definition select_link_stylesheet :: "html_element list \<Rightarrow> html_element list" where
  "select_link_stylesheet doc =
     filter (\<lambda>el. tag el = ''link'' \<and>
                 map_option toLowerCase (map_of (attrs el) ''rel'') = Some ''stylesheet'') doc"

text \<open>
  The body of both \<open>each\<close> callbacks, for a reference \<open>ref\<close> that is not empty:
  \<open>None\<close> when the URL constructor throws.
\<close>

definition make_bundle :: "env \<Rightarrow> string \<Rightarrow> bundle_type \<Rightarrow> string \<Rightarrow> string \<Rightarrow> BundleInfo option" where
  "make_bundle e base ty dflt ref =
     (case (if startsWith ref ''/'' then url_resolve e ref base else Some ref) of
        None \<Rightarrow> None
      | Some fullUrl \<Rightarrow>
          Some \<lparr>BundleInfo.url = fullUrl, type = ty, filename = pop_or (split_on (CHR ''/'') ref) dflt\<rparr>)"

fun each_push :: "env \<Rightarrow> string \<Rightarrow> bundle_type \<Rightarrow> string \<Rightarrow> string \<Rightarrow> html_element list \<Rightarrow>
    BundleInfo list \<Rightarrow> BundleInfo list option" where
  "each_push e base ty dflt a [] bs = Some bs"
| "each_push e base ty dflt a (el # els) bs =
     (case map_of (attrs el) a of
        None \<Rightarrow> each_push e base ty dflt a els bs
      | Some ref \<Rightarrow>
          if ref = [] then each_push e base ty dflt a els bs
          else (case make_bundle e base ty dflt ref of
                  None \<Rightarrow> None
                | Some b \<Rightarrow> each_push e base ty dflt a els (bs @ [b])))"

definition analyze_failed :: string where
  "analyze_failed = ''Failed to analyze HTML structure''"

definition analyzeHTML :: "env \<Rightarrow> DecompilationResult \<Rightarrow> string + BundleInfo list \<times> DecompilationResult" where
  "analyzeHTML e r =
     (case http_get e 15000 True (url r) of
        None \<Rightarrow> Inl analyze_failed
      | Some response \<Rightarrow>
          (case parse_html e (data response) of
             None \<Rightarrow> Inl analyze_failed
           | Some doc \<Rightarrow>
               (case each_push e (url r) JS ''script.js'' ''src'' (select_script_src doc) [] of
                  None \<Rightarrow> Inl analyze_failed
                | Some js \<Rightarrow>
                    (case each_push e (url r) CSS ''style.css'' ''href''
                            (select_link_stylesheet doc) js of
                       None \<Rightarrow> Inl analyze_failed
                     | Some bs \<Rightarrow>
                         Inr (bs, r\<lparr>originalFiles :=
                                      AList.update ''index.html'' (data response) (originalFiles r),
                                    bundles := bs\<rparr>)))))"

subsection \<open>beautifyCSS\<close>

definition NL :: string where
  "NL = [CHR 0x0A]"

definition blank_lines :: rx where
  "blank_lines = Seq (Lit NL) (Seq (Star is_space) (Lit NL))"

definition beautifyCSS :: "string \<Rightarrow> string" where
  "beautifyCSS css =
     trim
      (replace_all blank_lines NL
        (replace_all (Lit '','') ('','' @ NL @ ''  '')
          (replace_all (Lit '';'') ('';'' @ NL @ ''  '')
            (replace_all (Lit ''}'') (NL @ ''}'' @ NL)
              (replace_all (Lit ''{'') ('' {'' @ NL @ ''  '') css)))))"

subsection \<open>extractReactComponents and extractModules\<close>

fun seqs :: "rx list \<Rightarrow> rx" where
  "seqs [] = Lit []"
| "seqs [r] = r"
| "seqs (r # rs) = Seq r (seqs rs)"

definition alnum_chars :: string where
  "alnum_chars = lower_chars @ upper_chars @ digit_chars"

text \<open>\<open>([A-Z][a-zA-Z0-9]*)\<close>\<close>

definition component_name :: rx where
  "component_name = Cap (Seq (One (in_cls upper_chars)) (Star (in_cls alnum_chars)))"

text \<open>\<open>jsx?\<close>\<close>

definition jsx :: rx where
  "jsx = Seq (Lit ''js'') (Opt (Lit ''x''))"

text \<open>
  \<open>/function\s+([A-Z][a-zA-Z0-9]*)\s*\([^)]*\)\s*\{[^}]*return\s+[^}]*jsx?[^}]*\}/g\<close>
\<close>

definition function_component :: rx where
  "function_component =
     seqs [Lit ''function'', Plus is_space, component_name, Star is_space,
           Lit ''('', Star (not_cls '')''), Lit '')'', Star is_space,
           Lit ''{'', Star (not_cls ''}''), Lit ''return'', Plus is_space,
           Star (not_cls ''}''), jsx, Star (not_cls ''}''), Lit ''}'']"

text \<open>
  \<open>/const\s+([A-Z][a-zA-Z0-9]*)\s*=\s*\([^)]*\)\s*=>\s*\{[^}]*return[^}]*jsx?[^}]*\}/g\<close>
\<close>

definition arrow_component :: rx where
  "arrow_component =
     seqs [Lit ''const'', Plus is_space, component_name, Star is_space, Lit ''='',
           Star is_space, Lit ''('', Star (not_cls '')''), Lit '')'', Star is_space,
           Lit ''=>'', Star is_space, Lit ''{'', Star (not_cls ''}''), Lit ''return'',
           Star (not_cls ''}''), jsx, Star (not_cls ''}''), Lit ''}'']"

text \<open>
  \<open>/class\s+([A-Z][a-zA-Z0-9]*)\s+extends\s+[^{]*\{[^}]*render\s*\(\s*\)\s*\{[^}]*return[^}]*\}/g\<close>
\<close>

definition class_component :: rx where
  "class_component =
     seqs [Lit ''class'', Plus is_space, component_name, Plus is_space, Lit ''extends'',
           Plus is_space, Star (not_cls ''{''), Lit ''{'', Star (not_cls ''}''),
           Lit ''render'', Star is_space, Lit ''('', Star is_space, Lit '')'',
           Star is_space, Lit ''{'', Star (not_cls ''}''), Lit ''return'',
           Star (not_cls ''}''), Lit ''}'']"

definition patterns :: "rx list" where
  "patterns = [function_component, arrow_component, class_component]"

text \<open>\<open>[a-zA-Z_$][a-zA-Z0-9_$]*\<close> and \<open>["']\<close>\<close>

definition js_identifier :: rx where
  "js_identifier =
     Seq (One (in_cls (lower_chars @ upper_chars @ ''_$'')))
         (Star (in_cls (alnum_chars @ ''_$'')))"

definition quote_chars :: string where
  "quote_chars = [CHR 0x22, CHR 0x27]"

text \<open>
  \<open>/export\s+(?:default\s+)?(?:function|class|const|let|var)\s+([a-zA-Z_$][a-zA-Z0-9_$]*)/g\<close>,
  \<open>/module\.exports\s*=\s*([^;]+)/g\<close>,
  \<open>/exports\.([a-zA-Z_$][a-zA-Z0-9_$]*)\s*=/g\<close>,
  \<open>/import\s+(?:[^from]+from\s+)?["']([^"']+)["']/g\<close> and
  \<open>/require\(["']([^"']+)["']\)/g\<close>
\<close>

definition modulePatterns :: "rx list" where
  "modulePatterns =
     [seqs [Lit ''export'', Plus is_space, Opt (Seq (Lit ''default'') (Plus is_space)),
            Alt (Lit ''function'') (Alt (Lit ''class'') (Alt (Lit ''const'')
              (Alt (Lit ''let'') (Lit ''var'')))),
            Plus is_space, Cap js_identifier],
      seqs [Lit ''module.exports'', Star is_space, Lit ''='', Star is_space,
            Cap (Plus (not_cls '';''))],
      seqs [Lit ''exports.'', Cap js_identifier, Star is_space, Lit ''=''],
      seqs [Lit ''import'', Plus is_space,
            Opt (seqs [Plus (not_cls ''from''), Lit ''from'', Plus is_space]),
            One (in_cls quote_chars), Cap (Plus (not_cls quote_chars)),
            One (in_cls quote_chars)],
      seqs [Lit ''require('', One (in_cls quote_chars), Cap (Plus (not_cls quote_chars)),
            One (in_cls quote_chars), Lit '')'']]"

text \<open>
  \<open>for (const pattern of ps)\<close> around the \<open>exec\<close> loop: the matches of every
  pattern, pattern after pattern; \<open>None\<close> when one of the loops never ends.
\<close>

fun exec_patterns :: "rx list \<Rightarrow> string \<Rightarrow> (string \<times> string option) list option" where
  "exec_patterns [] s = Some []"
| "exec_patterns (p # ps) s =
     (case exec_loop p s of
        None \<Rightarrow> None
      | Some ms \<Rightarrow> (case exec_patterns ps s of None \<Rightarrow> None | Some ms' \<Rightarrow> Some (ms @ ms')))"

text \<open>
  The body of the loop of \<open>extractReactComponents\<close>: what it pushes, if anything,
  under \<open>match[1] && match[1][0] === match[1][0].toUpperCase()\<close>.
\<close>

definition component_of :: "string \<Rightarrow> string \<times> string option \<Rightarrow> ExtractedComponent option" where
  "component_of sourceFile m =
     (case snd m of
        None \<Rightarrow> None
      | Some [] \<Rightarrow> None
      | Some (c # cs) \<Rightarrow>
          if c = toUpperCase_char c
          then Some \<lparr>name = c # cs, code = fst m, ExtractedComponent.source = sourceFile\<rparr>
          else None)"

definition extractReactComponents :: "string \<Rightarrow> string \<Rightarrow> DecompilationResult \<Rightarrow> DecompilationResult option" where
  "extractReactComponents jsContent sourceFile r =
     (case exec_patterns patterns jsContent of
        None \<Rightarrow> None
      | Some ms \<Rightarrow>
          let cs = components r @ List.map_filter (component_of sourceFile) ms
          in Some (r\<lparr>components := cs,
                     analysis := (analysis r)\<lparr>analysis_summary.components := length cs\<rparr>\<rparr>))"

text \<open>The body of the loop of \<open>extractModules\<close>, under \<open>match[1]\<close>.\<close>

definition module_of :: "string \<Rightarrow> string \<times> string option \<Rightarrow> ModuleInfo option" where
  "module_of sourceFile m =
     (case snd m of
        None \<Rightarrow> None
      | Some [] \<Rightarrow> None
      | Some (c # cs) \<Rightarrow>
          Some \<lparr>identifier = c # cs, match = fst m, ModuleInfo.source = sourceFile\<rparr>)"

definition extractModules :: "string \<Rightarrow> string \<Rightarrow> DecompilationResult \<Rightarrow> DecompilationResult option" where
  "extractModules jsContent sourceFile r =
     (case exec_patterns modulePatterns jsContent of
        None \<Rightarrow> None
      | Some ms \<Rightarrow>
          let ms' = modules r @ List.map_filter (module_of sourceFile) ms
          in Some (r\<lparr>modules := ms',
                     analysis := (analysis r)\<lparr>analysis_summary.modules := length ms'\<rparr>\<rparr>))"

subsection \<open>downloadAndDecompileJS and downloadAndDecompileCSS\<close>

text \<open>\<open>None\<close>: the call never returns.\<close>

definition downloadAndDecompileJS :: "env \<Rightarrow> BundleInfo \<Rightarrow> DecompilationResult \<Rightarrow> DecompilationResult option" where
  "downloadAndDecompileJS e bundle r =
     (case http_get e 30000 True (BundleInfo.url bundle) of
        None \<Rightarrow> Some r
      | Some response \<Rightarrow>
          let jsContent = data response;
              r1 = r\<lparr>originalFiles := AList.update (filename bundle) jsContent (originalFiles r)\<rparr>
          in (case beautify e jsContent of
                None \<Rightarrow>
                  Some (r1\<lparr>beautifiedFiles :=
                              AList.update (''raw_'' @ filename bundle) jsContent (beautifiedFiles r1)\<rparr>)
              | Some beautifiedJs \<Rightarrow>
                  (case extractReactComponents beautifiedJs (filename bundle)
                          (r1\<lparr>beautifiedFiles :=
                                 AList.update (''beautified_'' @ filename bundle)
                                   (JString beautifiedJs) (beautifiedFiles r1),
                               analysis := (analysis r1)\<lparr>jsFiles := Suc (jsFiles (analysis r1))\<rparr>\<rparr>) of
                     None \<Rightarrow> None
                   | Some r2 \<Rightarrow> extractModules beautifiedJs (filename bundle) r2)))"

text \<open>
  \<open>this.beautifyCSS(cssContent)\<close> calls \<open>css.replace\<close>, which only a string has:
  on any other value it throws, after the original has been stored, and the
  \<open>catch\<close> of the method ends the call.
\<close>

definition downloadAndDecompileCSS :: "env \<Rightarrow> BundleInfo \<Rightarrow> DecompilationResult \<Rightarrow> DecompilationResult" where
  "downloadAndDecompileCSS e bundle r =
     (case http_get e 30000 True (BundleInfo.url bundle) of
        None \<Rightarrow> r
      | Some response \<Rightarrow>
          let cssContent = data response;
              r1 = r\<lparr>originalFiles := AList.update (filename bundle) cssContent (originalFiles r)\<rparr>
          in (case cssContent of
                JString css \<Rightarrow>
                  r1\<lparr>beautifiedFiles :=
                       AList.update (''beautified_'' @ filename bundle) (JString (beautifyCSS css))
                         (beautifiedFiles r1),
                     analysis := (analysis r1)\<lparr>cssFiles := Suc (cssFiles (analysis r1))\<rparr>\<rparr>
              | _ \<Rightarrow> r1))"

subsection \<open>trySourceMapRecovery and extractFromSourceMap\<close>

definition recovered_file :: "string \<Rightarrow> string \<Rightarrow> string \<Rightarrow> string \<times> json" where
  "recovered_file originalUrl sourcePath content =
     (let cleanPath =
            replace_first ''./'' [] (replace_first ''../'' [] (replace_first ''webpack://'' [] sourcePath))
      in (''source_'' @ pop_or (split_on (CHR ''/'') cleanPath) ''unknown.js'',
          JString (''// Recovered from source map: '' @ originalUrl @ NL @
                   ''// Original path: '' @ sourcePath @ NL @ NL @ content)))"

text \<open>
  The loop over \<open>i\<close>: \<open>ps\<close> is \<open>sources\<close> from \<open>i\<close> on and \<open>cs\<close> is
  \<open>sourcesContent\<close> from \<open>i\<close> on; past its end the content is \<open>undefined\<close>.
\<close>

fun recover_sources :: "string list \<Rightarrow> string list \<Rightarrow> string \<Rightarrow> files \<Rightarrow> files" where
  "recover_sources [] cs originalUrl fs = fs"
| "recover_sources (sourcePath # ps) cs originalUrl fs =
     (let content = (case cs of [] \<Rightarrow> [] | c # _ \<Rightarrow> c)
      in recover_sources ps (tl cs) originalUrl
           (if content \<noteq> [] \<and> sourcePath \<noteq> []
            then AList.update (fst (recovered_file originalUrl sourcePath content))
                   (snd (recovered_file originalUrl sourcePath content)) fs
            else fs))"

definition extractFromSourceMap :: "SourceMapInfo \<Rightarrow> string \<Rightarrow> DecompilationResult \<Rightarrow> DecompilationResult" where
  "extractFromSourceMap sourceMap originalUrl r =
     (case sources sourceMap of
        None \<Rightarrow> r
      | Some ps \<Rightarrow>
          (case sourcesContent sourceMap of
             None \<Rightarrow> r
           | Some cs \<Rightarrow> r\<lparr>originalFiles := recover_sources ps cs originalUrl (originalFiles r)\<rparr>))"

text \<open>
  The loop of \<open>trySourceMapRecovery\<close>. \<open>JSON.parse(response.data)\<close> converts the
  value axios handed over to a string and parses that.
\<close>

fun recover_bundles :: "env \<Rightarrow> BundleInfo list \<Rightarrow> DecompilationResult \<Rightarrow> DecompilationResult" where
  "recover_bundles e [] r = r"
| "recover_bundles e (bundle # bs) r =
     recover_bundles e bs
       (if type bundle = JS
        then (case http_get e 10000 False (BundleInfo.url bundle @ ''.map'') of
                None \<Rightarrow> r
              | Some response \<Rightarrow>
                  if status response = 200
                  then (case parse_source_map e (js_toString (data response)) of
                          None \<Rightarrow> r
                        | Some sourceMap \<Rightarrow> extractFromSourceMap sourceMap (BundleInfo.url bundle) r)
                  else r)
        else r)"

definition trySourceMapRecovery :: "env \<Rightarrow> DecompilationResult \<Rightarrow> DecompilationResult" where
  "trySourceMapRecovery e r = recover_bundles e (bundles r) r"

subsection \<open>runFullDecompilation\<close>

fun process_bundles :: "env \<Rightarrow> BundleInfo list \<Rightarrow> DecompilationResult \<Rightarrow> DecompilationResult option" where
  "process_bundles e [] r = Some r"
| "process_bundles e (bundle # bs) r =
     (case type bundle of
        JS \<Rightarrow> (case downloadAndDecompileJS e bundle r of
                 None \<Rightarrow> None
               | Some r' \<Rightarrow> process_bundles e bs r')
      | CSS \<Rightarrow> process_bundles e bs (downloadAndDecompileCSS e bundle r))"

definition no_bundles :: string where
  "no_bundles = ''No bundles found to decompile''"

text \<open>
  \<open>Inl\<close> is the message of the error thrown, \<open>Inr\<close> the record returned; \<open>None\<close>:
  the call never returns.
\<close>

definition runFullDecompilation :: "env \<Rightarrow> string \<Rightarrow> string \<Rightarrow> (string + DecompilationResult) option" where
  "runFullDecompilation e u j =
     (case analyzeHTML e (new_results e u j) of
        Inl err \<Rightarrow> Some (Inl err)
      | Inr (bs, r1) \<Rightarrow>
          if length bs = 0 then Some (Inl no_bundles)
          else (case process_bundles e bs (trySourceMapRecovery e r1) of
                  None \<Rightarrow> None
                | Some r3 \<Rightarrow> Some (Inr r3)))"

section \<open>The job registry\<close>

text \<open>The \<open>Map\<close> of the storage module, keys in insertion order.\<close>

type_synonym storage = "(string \<times> DecompilationResult) list"

definition jobStorage_save :: "env \<Rightarrow> string \<Rightarrow> DecompilationResult \<Rightarrow> storage \<Rightarrow> storage" where
  "jobStorage_save e j result st = AList.update j (result\<lparr>timestamp := now e\<rparr>) st"

definition jobStorage_get :: "storage \<Rightarrow> string \<Rightarrow> DecompilationResult option" where
  "jobStorage_get st j = map_of st j"

section \<open>The job submission endpoint\<close>

datatype post_response =
    PostError nat string "string option"
  | PostSuccess string submission_results

definition decompilation_failed :: string where
  "decompilation_failed = ''Decompilation failed''"

text \<open>
  \<open>POST\<close> on a body that parsed: the response and the registry afterwards; \<open>None\<close>
  when the handler never returns. \<open>PostError status error details\<close> is the JSON
  error response.
\<close>

definition POST :: "env \<Rightarrow> storage \<Rightarrow> DecompilationRequest \<Rightarrow> (post_response \<times> storage) option" where
  "POST e st body =
     (if DecompilationRequest.url body = [] \<or> DecompilationRequest.jobId body = []
      then Some (PostError 400 ''URL and jobId are required'' None, st)
      else if \<not> url_valid e (DecompilationRequest.url body)
      then Some (PostError 400 ''Invalid URL provided'' None, st)
      else (case runFullDecompilation e (DecompilationRequest.url body)
                   (DecompilationRequest.jobId body) of
              None \<Rightarrow> None
            | Some (Inl message) \<Rightarrow> Some (PostError 500 decompilation_failed (Some message), st)
            | Some (Inr results) \<Rightarrow>
                Some (PostSuccess (DecompilationRequest.jobId body)
                        \<lparr>jsFiles = jsFiles (analysis results),
                         cssFiles = cssFiles (analysis results),
                         analysis_summary.components = analysis_summary.components (analysis results),
                         analysis_summary.modules = analysis_summary.modules (analysis results),
                         submission_results.bundles = length (bundles results),
                         files = length (originalFiles results) + length (beautifiedFiles results)\<rparr>,
                      jobStorage_save e (DecompilationRequest.jobId body) results st)))"

section \<open>The file endpoint\<close>

text \<open>
  \<open>FileItem name category size\<close> and \<open>FileContent name content category size\<close>:
  a size is the \<open>length\<close> property of a stored value, \<open>None\<close> when the value has
  none.
\<close>

datatype FileItem = FileItem string string "json option"

datatype get_response =
    GetError nat string
  | FileContent string json string "json option"
  | Listing string string "FileItem list" analysis_summary "BundleInfo list"

text \<open>
  \<open>obj[k]\<close> where the program tests it with \<open>if (obj[k])\<close>: the value when the
  property is there and is truthy (a string that is not empty), \<open>None\<close> when the
  test fails.
\<close>

definition truthy_lookup :: "files \<Rightarrow> string \<Rightarrow> json option" where
  "truthy_lookup fs k =
     (case map_of fs k of None \<Rightarrow> None | Some v \<Rightarrow> if truthy v then Some v else None)"

definition component_items :: "ExtractedComponent list \<Rightarrow> FileItem list" where
  "component_items cs =
     map (\<lambda>(index, component).
            FileItem (name component @ ''_'' @ show_nat index @ ''.jsx'') ''components''
              (js_length (JString (code component))))
         (enumerate 0 cs)"

text \<open>
  The listing reads the \<open>length\<close> of every stored value; on a stored \<open>null\<close> the
  read throws and the handler answers with its error response.
\<close>

definition listing :: "string \<Rightarrow> DecompilationResult \<Rightarrow> get_response" where
  "listing j result =
     (if list_ex (\<lambda>(k, v). v = JNull) (originalFiles result @ beautifiedFiles result)
      then GetError 500 ''Failed to retrieve files''
      else Listing j (url result)
             (map (\<lambda>(k, v). FileItem k ''original'' (js_length v)) (originalFiles result) @
              map (\<lambda>(k, v). FileItem k ''beautified'' (js_length v)) (beautifiedFiles result) @
              component_items (components result))
             (analysis result) (bundles result))"

text \<open>
  \<open>GET\<close> for a job id and the \<open>file\<close> parameter of the query (\<open>None\<close> when it is
  absent).
\<close>

definition GET :: "storage \<Rightarrow> string \<Rightarrow> string option \<Rightarrow> get_response" where
  "GET st j fileName =
     (case jobStorage_get st j of
        None \<Rightarrow> GetError 404 ''Job not found''
      | Some result \<Rightarrow>
          (case fileName of
             None \<Rightarrow> listing j result
           | Some f \<Rightarrow>
               if f = [] then listing j result
               else (case truthy_lookup (originalFiles result) f of
                       Some content \<Rightarrow> FileContent f content ''original'' (js_length content)
                     | None \<Rightarrow>
                         (case truthy_lookup (beautifiedFiles result) f of
                            Some content \<Rightarrow> FileContent f content ''beautified'' (js_length content)
                          | None \<Rightarrow> GetError 404 ''File not found''))))"

section \<open>The extraction loops return\<close>

declare exec_loop.simps [simp del]

declare replace_all.simps [simp del]

text \<open>The length of the shortest text a pattern can match.\<close>

fun min_len :: "rx \<Rightarrow> nat" where
  "min_len (Lit l) = length l"
| "min_len (One p) = 1"
| "min_len (Star p) = 0"
| "min_len (Plus p) = 1"
| "min_len (Seq a b) = min_len a + min_len b"
| "min_len (Alt a b) = min (min_len a) (min_len b)"
| "min_len (Opt a) = 0"
| "min_len (Cap a) = min_len a"

lemma sem_min_len: "sem r u c c' \<Longrightarrow> min_len r \<le> length u"
proof (induction r arbitrary: u c c')
  case (Plus p)
  then show ?case by (cases u) auto
next
  case (Seq a b)
  then show ?case by (fastforce dest: add_mono)
next
  case (Alt a b)
  then show ?case by (fastforce simp: min_le_iff_disj)
qed auto

lemma search_positive:
  assumes "0 < min_len r" and "search r s = Some (i, n, c)"
  shows "0 < n"
proof -
  from search_sound [OF assms(2)] have "n \<le> length (drop i s)" "sem r (take n (drop i s)) None c"
    by auto
  with sem_min_len [of r "take n (drop i s)" None c] assms(1) show ?thesis by auto
qed

lemma exec_loop_returns: "0 < min_len r \<Longrightarrow> \<exists>ms. exec_loop r s = Some ms"
proof (induction r s rule: exec_loop.induct)
  case (1 r s)
  show ?case
  proof (cases "search r s")
    case None
    then show ?thesis by (simp add: exec_loop.simps [of r s])
  next
    case (Some a)
    obtain i n c where a: "a = (i, n, c)" by (cases a)
    with Some "1.prems" have n: "n \<noteq> 0" using search_positive [of r s i n c] by simp
    from "1.IH" [OF Some a [symmetric] refl n "1.prems"] obtain ms where
      "exec_loop r (drop (i + n) s) = Some ms" by blast
    with Some a n show ?thesis by (simp add: exec_loop.simps [of r s])
  qed
qed

lemma exec_patterns_returns:
  "\<forall>p \<in> set ps. 0 < min_len p \<Longrightarrow> \<exists>ms. exec_patterns ps s = Some ms"
proof (induction ps)
  case Nil
  then show ?case by simp
next
  case (Cons p ps)
  then obtain ms ms' where "exec_loop p s = Some ms" "exec_patterns ps s = Some ms'"
    using exec_loop_returns [of p s] by auto
  then show ?case by simp
qed

lemma patterns_min_len: "\<forall>p \<in> set patterns. 0 < min_len p"
  by (simp add: patterns_def function_component_def arrow_component_def class_component_def
      component_name_def jsx_def)

lemma modulePatterns_min_len: "\<forall>p \<in> set modulePatterns. 0 < min_len p"
  by (simp add: modulePatterns_def js_identifier_def)

lemma extractReactComponents_returns:
  "\<exists>cs. extractReactComponents js f r =
     Some (r\<lparr>components := components r @ cs,
             analysis := (analysis r)\<lparr>analysis_summary.components := length (components r @ cs)\<rparr>\<rparr>)"
proof -
  obtain ms where "exec_patterns patterns js = Some ms"
    using exec_patterns_returns [OF patterns_min_len] by blast
  then show ?thesis by (auto simp: extractReactComponents_def Let_def)
qed

lemma extractModules_returns:
  "\<exists>ms. extractModules js f r =
     Some (r\<lparr>modules := modules r @ ms,
             analysis := (analysis r)\<lparr>analysis_summary.modules := length (modules r @ ms)\<rparr>\<rparr>)"
proof -
  obtain ms where "exec_patterns modulePatterns js = Some ms"
    using exec_patterns_returns [OF modulePatterns_min_len] by blast
  then show ?thesis by (auto simp: extractModules_def Let_def)
qed

section \<open>An example site\<close>

text \<open>
  A site to run the program on: the root document links \<open>/style.css\<close> and then
  loads \<open>/bundle.js\<close>; both can be fetched and are not JSON text, there is no
  source map, and the beautifier returns the string it is given.
\<close>

definition example_url :: string where
  "example_url = ''https://example.com/''"

definition example_get :: "(string \<times> json) list \<Rightarrow> nat \<Rightarrow> bool \<Rightarrow> string \<Rightarrow> http_response option" where
  "example_get pages timeout browser u =
     (case map_of pages u of None \<Rightarrow> None | Some body \<Rightarrow> Some \<lparr>status = 200, data = body\<rparr>)"

definition script_element :: "string \<Rightarrow> html_element" where
  "script_element src = \<lparr>tag = ''script'', attrs = [(''src'', src)]\<rparr>"

definition stylesheet_element :: "string \<Rightarrow> html_element" where
  "stylesheet_element href = \<lparr>tag = ''link'', attrs = [(''rel'', ''stylesheet''), (''href'', href)]\<rparr>"

definition example_beautify :: "json \<Rightarrow> string option" where
  "example_beautify v = (case v of JString js \<Rightarrow> Some js | _ \<Rightarrow> None)"

definition example_site :: env where
  "example_site =
     \<lparr>http_get = example_get
        [(''https://example.com/'', JString ''<html>''),
         (''https://example.com/bundle.js'', JString ''function Header() { return jsx(1); }''),
         (''https://example.com/style.css'', JString ''a{b:c}'')],
      parse_html = (\<lambda>html. Some [stylesheet_element ''/style.css'', script_element ''/bundle.js'']),
      url_resolve = (\<lambda>ref base. Some (''https://example.com'' @ ref)),
      url_valid = (\<lambda>u. True),
      beautify = example_beautify,
      parse_source_map = (\<lambda>json. None),
      now = 0\<rparr>"

definition example_request :: DecompilationRequest where
  "example_request = \<lparr>DecompilationRequest.url = example_url, jobId = ''job1''\<rparr>"

lemma example_modules:
  "exec_patterns modulePatterns ''function Header() { return jsx(1); }'' = Some []"
  by code_simp

lemma example_components:
  "exec_patterns patterns ''function Header() { return jsx(1); }'' =
     Some [(''function Header() { return jsx(1); }'', Some ''Header'')]"
  by code_simp

lemma example_css: "beautifyCSS ''a{b:c}'' = ''a {'' @ NL @ ''  b:c'' @ NL @ ''}''"
  by code_simp

lemma empty_css: "beautifyCSS [] = []"
  by code_simp

lemma stylesheet_lower: "toLowerCase ''stylesheet'' = ''stylesheet''"
  by code_simp

lemma stylesheet_upper: "toLowerCase ''STYLESHEET'' = ''stylesheet''"
  by code_simp

lemmas run_defs = runFullDecompilation_def analyzeHTML_def new_results_def example_site_def
  example_get_def example_url_def select_script_src_def select_link_stylesheet_def
  script_element_def stylesheet_element_def make_bundle_def startsWith_def pop_or_def
  trySourceMapRecovery_def downloadAndDecompileJS_def downloadAndDecompileCSS_def
  extractReactComponents_def extractModules_def component_of_def module_of_def
  toUpperCase_char_def lower_chars_def upper_chars_def Let_def
  example_request_def POST_def jobStorage_save_def jobStorage_get_def example_beautify_def
  js_toString_def example_modules example_components example_css empty_css stylesheet_lower

section \<open>Bundle discovery\<close>

text \<open>
  C1 (the code departs from the claim). A reference that is relative and does not
  start with \<open>/\<close>, such as \<open>js/app.js\<close>, is not resolved against the root URL:
  whatever the URL constructor would return, the \<open>url\<close> of its bundle is the
  reference itself, which is not an absolute URL.
\<close>

theorem relative_reference_kept_unresolved:
  "make_bundle e base ty dflt ''js/app.js'' =
     Some \<lparr>BundleInfo.url = ''js/app.js'', type = ty, filename = ''app.js''\<rparr> \<and>
   (case analyzeHTML
           (example_site\<lparr>parse_html := \<lambda>html. Some [script_element ''js/app.js'']\<rparr>)
           (new_results example_site example_url ''job1'') of
      Inl err \<Rightarrow> None
    | Inr (bs, r) \<Rightarrow> Some (map BundleInfo.url bs)) = Some [''js/app.js'']"
  by (simp add: run_defs)

section \<open>Beautification failure\<close>

text \<open>
  C6. When the bundle is retrieved and the beautifier throws, the call returns; the
  original text is stored under the \<open>raw_\<close> name, nothing is written under the
  \<open>beautified_\<close> name, and the components, the modules and the counters stay as
  they were.
\<close>

theorem beautify_error_stores_raw:
  assumes "http_get e 30000 True (BundleInfo.url b) = Some response"
    and "beautify e (data response) = None"
  shows "\<exists>r'. downloadAndDecompileJS e b r = Some r' \<and>
           originalFiles r' = AList.update (filename b) (data response) (originalFiles r) \<and>
           beautifiedFiles r' =
             AList.update (''raw_'' @ filename b) (data response) (beautifiedFiles r) \<and>
           map_of (beautifiedFiles r') (''raw_'' @ filename b) = Some (data response) \<and>
           map_of (beautifiedFiles r') (''beautified_'' @ filename b) =
             map_of (beautifiedFiles r) (''beautified_'' @ filename b) \<and>
           components r' = components r \<and> modules r' = modules r \<and>
           analysis r' = analysis r"
  using assms by (simp add: downloadAndDecompileJS_def Let_def update_conv')

theorem beautify_error_stores_raw_witness:
  "\<exists>r'. downloadAndDecompileJS (example_site\<lparr>beautify := \<lambda>js. None\<rparr>)
           \<lparr>BundleInfo.url = ''https://example.com/bundle.js'', type = JS, filename = ''bundle.js''\<rparr>
           (new_results example_site example_url ''job1'') = Some r' \<and>
         beautifiedFiles r' =
           [(''raw_bundle.js'', JString ''function Header() { return jsx(1); }'')] \<and>
         components r' = [] \<and> modules r' = [] \<and> jsFiles (analysis r') = 0"
proof -
  let ?e = "example_site\<lparr>beautify := \<lambda>js. None\<rparr>"
  let ?b = "\<lparr>BundleInfo.url = ''https://example.com/bundle.js'', type = JS, filename = ''bundle.js''\<rparr>"
  let ?response = "\<lparr>status = 200, data = JString ''function Header() { return jsx(1); }''\<rparr>"
  have fetched: "http_get ?e 30000 True (BundleInfo.url ?b) = Some ?response"
    by (simp add: example_site_def example_get_def)
  have throws: "beautify ?e (data ?response) = None"
    by (simp add: example_site_def)
  from beautify_error_stores_raw [OF fetched throws, of "new_results example_site example_url ''job1''"]
  show ?thesis by (auto simp: new_results_def)
qed

section \<open>Source map recovery\<close>

text \<open>
  What \<open>extractFromSourceMap\<close> does once it is called: for a source map with
  \<open>sources = ["./src/App.js"]\<close> and a content that is not empty, it writes the
  content, after the header comment, under the key \<open>source_App.js\<close> of
  \<open>originalFiles\<close>, the map of the retrieved assets.
\<close>

lemma extractFromSourceMap_App:
  assumes "content \<noteq> []"
  shows "extractFromSourceMap
           \<lparr>sources = Some [''./src/App.js''], sourcesContent = Some [content]\<rparr> originalUrl r =
         r\<lparr>originalFiles :=
             AList.update ''source_App.js''
               (JString (''// Recovered from source map: '' @ originalUrl @ NL @
                         ''// Original path: ./src/App.js'' @ NL @ NL @ content))
               (originalFiles r)\<rparr>"
  using assms
  by (simp add: extractFromSourceMap_def recovered_file_def startsWith_def pop_or_def)

text \<open>
  The source map of the example: its JSON text, a JSON parser that reads this text
  and no other, and the value axios hands over for a body that is this text.
\<close>

definition example_map_text :: string where
  "example_map_text =
     ''{'' @ [CHR 0x22] @ ''sources'' @ [CHR 0x22] @ '':['' @ [CHR 0x22] @ ''./src/App.js'' @
     [CHR 0x22] @ ''],'' @ [CHR 0x22] @ ''sourcesContent'' @ [CHR 0x22] @ '':['' @ [CHR 0x22] @
     ''let a;'' @ [CHR 0x22] @ '']}''"

definition example_parse :: "string \<Rightarrow> SourceMapInfo option" where
  "example_parse t =
     (if t = example_map_text
      then Some \<lparr>sources = Some [''./src/App.js''], sourcesContent = Some [''let a;'']\<rparr>
      else None)"

definition example_map :: json where
  "example_map =
     JObject [(''sources'', JArray [JString ''./src/App.js'']),
              (''sourcesContent'', JArray [JString ''let a;''])]"

definition mapped_site :: "json \<Rightarrow> env" where
  "mapped_site served =
     example_site
       \<lparr>http_get := example_get
          [(''https://example.com/'', JString ''<html>''),
           (''https://example.com/bundle.js'', JString ''function Header() { return jsx(1); }''),
           (''https://example.com/bundle.js.map'', served)],
        parse_html := \<lambda>html. Some [script_element ''/bundle.js''],
        parse_source_map := example_parse\<rparr>"

text \<open>
  C9 (the code departs from the claim). The source map of \<open>/bundle.js\<close> is
  retrieved with status 200; axios hands it over parsed, \<open>JSON.parse\<close> turns the
  object into the text \<open>[object Object]\<close> and throws, and the \<open>catch\<close> of the loop
  drops the error: the job returns with \<open>index.html\<close> and \<open>bundle.js\<close> as its
  only original files, and \<open>source_App.js\<close> is not a key. Only a body that axios
  hands over as a string (here a JSON string that holds the text of the map) reaches
  \<open>extractFromSourceMap\<close> and gets the entry.
\<close>

theorem retrieved_source_map_not_recovered:
  "(case runFullDecompilation (mapped_site example_map) example_url ''job1'' of
      Some (Inr r) \<Rightarrow>
        Some (map fst (originalFiles r), map_of (originalFiles r) ''source_App.js'')
    | _ \<Rightarrow> None) = Some ([''index.html'', ''bundle.js''], None) \<and>
   (case runFullDecompilation (mapped_site (JString example_map_text)) example_url ''job1'' of
      Some (Inr r) \<Rightarrow> Some (map fst (originalFiles r))
    | _ \<Rightarrow> None) = Some [''index.html'', ''source_App.js'', ''bundle.js'']"
  by (simp add: run_defs mapped_site_def example_map_def example_parse_def example_map_text_def
      extractFromSourceMap_def recovered_file_def)

section \<open>The file endpoint and empty files\<close>

text \<open>
  C10 (the code departs from the claim). On the example site with an empty
  stylesheet, the job succeeds and stores the file: \<open>style.css\<close> is a key of
  \<open>originalFiles\<close>, with the empty content. The file endpoint answers
  \<open>File not found\<close> for it.
\<close>

theorem empty_file_reported_not_found:
  "(case POST (example_site\<lparr>http_get :=
                  example_get [(''https://example.com/'', JString ''<html>''),
                               (''https://example.com/style.css'', JString [])]\<rparr>)
           [] example_request of
      None \<Rightarrow> None
    | Some (response, st) \<Rightarrow>
        Some (map_option (\<lambda>r. map_of (originalFiles r) ''style.css'') (jobStorage_get st ''job1''),
              GET st ''job1'' (Some ''style.css''))) =
   Some (Some (Some (JString [])), GetError 404 ''File not found'')"
  by (simp add: run_defs GET_def truthy_lookup_def)

section \<open>Discovery: count and order\<close>

text \<open>The values of the attribute \<open>a\<close> that are not empty, element after element.\<close>

definition attr_values :: "string \<Rightarrow> html_element list \<Rightarrow> string list" where
  "attr_values a els =
     List.map_filter
       (\<lambda>el. case map_of (attrs el) a of None \<Rightarrow> None | Some ref \<Rightarrow> if ref = [] then None else Some ref)
       els"

text \<open>
  The script references with a source and the stylesheet references with an href
  of a document, each in document order.
\<close>

definition script_refs :: "html_element list \<Rightarrow> string list" where
  "script_refs doc = attr_values ''src'' (select_script_src doc)"

definition stylesheet_refs :: "html_element list \<Rightarrow> string list" where
  "stylesheet_refs doc = attr_values ''href'' (select_link_stylesheet doc)"

text \<open>
  The order the specification asks for: the references of both kinds as the
  document has them, element after element.
\<close>

definition references_in_document_order :: "html_element list \<Rightarrow> (bundle_type \<times> string) list" where
  "references_in_document_order doc =
     concat (map (\<lambda>el. map (Pair JS) (script_refs [el]) @ map (Pair CSS) (stylesheet_refs [el])) doc)"

lemma attr_values_Cons:
  "attr_values a (el # els) =
     (case map_of (attrs el) a of
        None \<Rightarrow> attr_values a els
      | Some ref \<Rightarrow> if ref = [] then attr_values a els else ref # attr_values a els)"
  by (simp add: attr_values_def map_filter_simps split: option.splits)

lemma attr_values_Nil: "attr_values a [] = []"
  by (simp add: attr_values_def map_filter_simps)

lemma each_push_all:
  "\<forall>ref \<in> set (attr_values a els). make_bundle e base ty dflt ref \<noteq> None \<Longrightarrow>
   \<exists>new. each_push e base ty dflt a els bs = Some (bs @ new) \<and>
         map Some new = map (make_bundle e base ty dflt) (attr_values a els)"
proof (induction els arbitrary: bs)
  case Nil
  then show ?case by (simp add: attr_values_Nil)
next
  case (Cons el els)
  show ?case
  proof (cases "map_of (attrs el) a")
    case None
    with Cons show ?thesis by (simp add: attr_values_Cons)
  next
    case (Some ref)
    show ?thesis
    proof (cases "ref = []")
      case True
      with Some Cons show ?thesis by (simp add: attr_values_Cons)
    next
      case False
      with Some Cons.prems obtain b where b: "make_bundle e base ty dflt ref = Some b"
        by (auto simp: attr_values_Cons)
      from Some False Cons.prems
      have "\<forall>ref \<in> set (attr_values a els). make_bundle e base ty dflt ref \<noteq> None"
        by (simp add: attr_values_Cons)
      from Cons.IH [OF this, of "bs @ [b]"] obtain new where
        "each_push e base ty dflt a els (bs @ [b]) = Some ((bs @ [b]) @ new)"
        "map Some new = map (make_bundle e base ty dflt) (attr_values a els)" by blast
      with Some False b
      have "each_push e base ty dflt a (el # els) bs = Some (bs @ (b # new)) \<and>
            map Some (b # new) = map (make_bundle e base ty dflt) (attr_values a (el # els))"
        by (simp add: attr_values_Cons)
      then show ?thesis by blast
    qed
  qed
qed

lemma make_bundle_resolvable:
  "(startsWith ref ''/'' \<longrightarrow> url_resolve e ref base \<noteq> None) \<Longrightarrow>
   make_bundle e base ty dflt ref \<noteq> None"
  by (auto simp: make_bundle_def split: option.splits)

lemma make_bundle_type: "make_bundle e base ty dflt ref = Some b \<Longrightarrow> type b = ty"
  by (auto simp: make_bundle_def split: option.splits if_splits)

lemma map_Some_types:
  "map Some bs = map (make_bundle e base ty dflt) refs \<Longrightarrow> map type bs = replicate (length refs) ty"
proof (induction refs arbitrary: bs)
  case Nil
  then show ?case by simp
next
  case (Cons ref refs)
  then obtain b bs' where "bs = b # bs'" "make_bundle e base ty dflt ref = Some b"
    "map Some bs' = map (make_bundle e base ty dflt) refs"
    by (cases bs) auto
  with Cons.IH [of bs'] show ?case by (simp add: make_bundle_type)
qed

text \<open>
  C2 fails as stated: the example document has its stylesheet link before its
  script, and discovery returns the script first.
\<close>

theorem discovery_not_in_document_order:
  "(case analyzeHTML example_site (new_results example_site example_url ''job1'') of
      Inl err \<Rightarrow> None
    | Inr (bs, r) \<Rightarrow> Some (map (\<lambda>b. (type b, filename b)) bs)) =
     Some [(JS, ''bundle.js''), (CSS, ''style.css'')] \<and>
   map_option references_in_document_order (parse_html example_site (JString ''<html>'')) =
     Some [(CSS, ''/style.css''), (JS, ''/bundle.js'')]"
  by (simp add: run_defs references_in_document_order_def script_refs_def stylesheet_refs_def
      attr_values_def)

text \<open>
  C2 as amended. When the root document is fetched and parsed and every reference
  that starts with \<open>/\<close> resolves, discovery returns one bundle for each script
  reference with a source that is not empty and one for each stylesheet link
  (\<open>rel\<close> read without regard to case) with an href that is not empty: first the
  scripts in document order, then the stylesheets in document order.
\<close>

theorem discovery_scripts_then_stylesheets:
  assumes "http_get e 15000 True (url r) = Some response"
    and "parse_html e (data response) = Some doc"
    and "\<forall>ref \<in> set (script_refs doc @ stylesheet_refs doc).
           startsWith ref ''/'' \<longrightarrow> url_resolve e ref (url r) \<noteq> None"
  shows "\<exists>bs r'. analyzeHTML e r = Inr (bs, r') \<and> bundles r' = bs \<and>
           length bs = length (script_refs doc) + length (stylesheet_refs doc) \<and>
           map Some bs =
             map (make_bundle e (url r) JS ''script.js'') (script_refs doc) @
             map (make_bundle e (url r) CSS ''style.css'') (stylesheet_refs doc) \<and>
           map type bs =
             replicate (length (script_refs doc)) JS @
             replicate (length (stylesheet_refs doc)) CSS"
proof -
  have resolves: "make_bundle e (url r) ty dflt ref \<noteq> None"
    if "ref \<in> set (script_refs doc @ stylesheet_refs doc)" for ref ty dflt
    using that assms(3) by (intro make_bundle_resolvable) blast
  have "\<forall>ref \<in> set (attr_values ''src'' (select_script_src doc)).
       make_bundle e (url r) JS ''script.js'' ref \<noteq> None"
    using resolves unfolding script_refs_def by (metis Un_iff set_append)
  from each_push_all [OF this, of "[]"] obtain js where js:
    "each_push e (url r) JS ''script.js'' ''src'' (select_script_src doc) [] = Some js"
    "map Some js = map (make_bundle e (url r) JS ''script.js'') (script_refs doc)"
    by (auto simp: script_refs_def)
  have "\<forall>ref \<in> set (attr_values ''href'' (select_link_stylesheet doc)).
       make_bundle e (url r) CSS ''style.css'' ref \<noteq> None"
    using resolves unfolding stylesheet_refs_def by (metis Un_iff set_append)
  from each_push_all [OF this, of js] obtain css where css:
    "each_push e (url r) CSS ''style.css'' ''href'' (select_link_stylesheet doc) js = Some (js @ css)"
    "map Some css = map (make_bundle e (url r) CSS ''style.css'') (stylesheet_refs doc)"
    by (auto simp: stylesheet_refs_def)
  have run: "analyzeHTML e r =
      Inr (js @ css, r\<lparr>originalFiles := AList.update ''index.html'' (data response) (originalFiles r),
                      bundles := js @ css\<rparr>)"
    using assms(1,2) js(1) css(1) by (simp add: analyzeHTML_def)
  have len: "length js = length (script_refs doc)" "length css = length (stylesheet_refs doc)"
    using js(2) css(2) by (metis length_map)+
  have types: "map type (js @ css) =
      replicate (length (script_refs doc)) JS @ replicate (length (stylesheet_refs doc)) CSS"
    using map_Some_types [OF js(2)] map_Some_types [OF css(2)] by simp
  from run len types js(2) css(2) show ?thesis by simp
qed

theorem discovery_scripts_then_stylesheets_witness:
  "\<exists>r'. analyzeHTML example_site (new_results example_site example_url ''job1'') =
          Inr ([\<lparr>BundleInfo.url = ''https://example.com/bundle.js'', type = JS, filename = ''bundle.js''\<rparr>,
                \<lparr>BundleInfo.url = ''https://example.com/style.css'', type = CSS, filename = ''style.css''\<rparr>],
               r')"
proof -
  let ?r = "new_results example_site example_url ''job1''"
  let ?doc = "[stylesheet_element ''/style.css'', script_element ''/bundle.js'']"
  have fetched: "http_get example_site 15000 True (url ?r) =
      Some \<lparr>status = 200, data = JString ''<html>''\<rparr>"
    by (simp add: run_defs)
  have doc: "parse_html example_site (data \<lparr>status = 200, data = JString ''<html>''\<rparr>) = Some ?doc"
    by (simp add: run_defs)
  have resolvable: "\<forall>ref \<in> set (script_refs ?doc @ stylesheet_refs ?doc).
      startsWith ref ''/'' \<longrightarrow> url_resolve example_site ref (url ?r) \<noteq> None"
    by (simp add: run_defs)
  from discovery_scripts_then_stylesheets [OF fetched doc resolvable]
  show ?thesis
    by (auto simp: run_defs script_refs_def stylesheet_refs_def attr_values_def)
qed

text \<open>A stylesheet link whose \<open>rel\<close> is written in upper case is selected.\<close>

lemma upper_case_rel_selected:
  "select_link_stylesheet [\<lparr>tag = ''link'', attrs = [(''rel'', ''STYLESHEET''), (''href'', ''/a.css'')]\<rparr>] =
     [\<lparr>tag = ''link'', attrs = [(''rel'', ''STYLESHEET''), (''href'', ''/a.css'')]\<rparr>]"
  by (simp add: select_link_stylesheet_def stylesheet_upper)

section \<open>What each stage changes\<close>

lemma analyzeHTML_Inl: "analyzeHTML e r = Inl message \<Longrightarrow> message = analyze_failed"
  by (auto simp: analyzeHTML_def Let_def split: option.splits)

lemma analyzeHTML_Inr:
  "analyzeHTML e r = Inr (bs, r1) \<Longrightarrow>
   \<exists>response. http_get e 15000 True (url r) = Some response \<and>
     r1 = r\<lparr>originalFiles := AList.update ''index.html'' (data response) (originalFiles r),
            bundles := bs\<rparr>"
  by (auto simp: analyzeHTML_def Let_def split: option.splits)

lemma frame_refl: "\<exists>fs. r = r\<lparr>originalFiles := fs\<rparr>"
  by (rule exI [of _ "originalFiles r"]) simp

lemma extractFromSourceMap_frame:
  "\<exists>fs. extractFromSourceMap sm u r = r\<lparr>originalFiles := fs\<rparr>"
proof (cases "sources sm")
  case None
  then show ?thesis using frame_refl by (simp add: extractFromSourceMap_def)
next
  case (Some ps)
  show ?thesis
  proof (cases "sourcesContent sm")
    case None
    with Some show ?thesis using frame_refl by (simp add: extractFromSourceMap_def)
  next
    case (Some cs)
    with \<open>sources sm = Some ps\<close>
    have "extractFromSourceMap sm u r =
        r\<lparr>originalFiles := recover_sources ps cs u (originalFiles r)\<rparr>"
      by (simp add: extractFromSourceMap_def)
    then show ?thesis by (rule exI)
  qed
qed

text \<open>What the loop of \<open>trySourceMapRecovery\<close> does for one bundle.\<close>

lemma recover_step_frame:
  "\<exists>fs. (if type b = JS
        then (case http_get e 10000 False (BundleInfo.url b @ ''.map'') of
                None \<Rightarrow> r
              | Some response \<Rightarrow>
                  if status response = 200
                  then (case parse_source_map e (js_toString (data response)) of
                          None \<Rightarrow> r
                        | Some sourceMap \<Rightarrow> extractFromSourceMap sourceMap (BundleInfo.url b) r)
                  else r)
        else r) = r\<lparr>originalFiles := fs\<rparr>"
proof (cases "type b = JS")
  case False
  then show ?thesis using frame_refl by simp
next
  case True
  show ?thesis
  proof (cases "http_get e 10000 False (BundleInfo.url b @ ''.map'')")
    case None
    with True show ?thesis using frame_refl by simp
  next
    case (Some response)
    show ?thesis
    proof (cases "status response = 200")
      case False
      with True Some show ?thesis using frame_refl by simp
    next
      case ok: True
      show ?thesis
      proof (cases "parse_source_map e (js_toString (data response))")
        case None
        with True Some ok show ?thesis using frame_refl by simp
      next
        case (Some sm)
        with True \<open>http_get e 10000 False (BundleInfo.url b @ ''.map'') = Some response\<close> ok
        show ?thesis using extractFromSourceMap_frame by simp
      qed
    qed
  qed
qed

lemma recover_bundles_frame: "\<exists>fs. recover_bundles e bs r = r\<lparr>originalFiles := fs\<rparr>"
proof (induction bs arbitrary: r)
  case Nil
  then show ?case using frame_refl by simp
next
  case (Cons b bs)
  from recover_step_frame [where b = b and e = e and r = r] obtain fs where
    step: "recover_bundles e (b # bs) r = recover_bundles e bs (r\<lparr>originalFiles := fs\<rparr>)"
    by (auto simp del: split_paired_Ex)
  from Cons.IH [of "r\<lparr>originalFiles := fs\<rparr>"] obtain fs' where
    "recover_bundles e bs (r\<lparr>originalFiles := fs\<rparr>) = r\<lparr>originalFiles := fs\<rparr>\<lparr>originalFiles := fs'\<rparr>"
    by blast
  with step have "recover_bundles e (b # bs) r = r\<lparr>originalFiles := fs'\<rparr>" by simp
  then show ?case by blast
qed

lemma trySourceMapRecovery_frame: "\<exists>fs. trySourceMapRecovery e r = r\<lparr>originalFiles := fs\<rparr>"
  unfolding trySourceMapRecovery_def by (rule recover_bundles_frame)

lemma recover_bundles_no_map:
  "\<forall>b \<in> set bs. http_get e 10000 False (BundleInfo.url b @ ''.map'') = None \<Longrightarrow>
   recover_bundles e bs r = r"
  by (induction bs arbitrary: r) simp_all

text \<open>
  A bundle is retrieved when its fetch returns; a script is beautified when
  moreover the beautifier returns on what was fetched, and a stylesheet when what
  was fetched is a string. \<open>written e b\<close> is the key of \<open>beautifiedFiles\<close> that
  processing the bundle writes, if it writes one.
\<close>

definition retrieved :: "env \<Rightarrow> BundleInfo \<Rightarrow> bool" where
  "retrieved e b = (http_get e 30000 True (BundleInfo.url b) \<noteq> None)"

definition beautified :: "env \<Rightarrow> BundleInfo \<Rightarrow> bool" where
  "beautified e b =
     (case http_get e 30000 True (BundleInfo.url b) of
        None \<Rightarrow> False
      | Some response \<Rightarrow> beautify e (data response) \<noteq> None)"

definition css_text :: "env \<Rightarrow> BundleInfo \<Rightarrow> bool" where
  "css_text e b =
     (case http_get e 30000 True (BundleInfo.url b) of
        None \<Rightarrow> False
      | Some response \<Rightarrow> (case data response of JString css \<Rightarrow> True | _ \<Rightarrow> False))"

definition written :: "env \<Rightarrow> BundleInfo \<Rightarrow> string option" where
  "written e b =
     (case type b of
        JS \<Rightarrow> if beautified e b then Some (''beautified_'' @ filename b)
              else if retrieved e b then Some (''raw_'' @ filename b) else None
      | CSS \<Rightarrow> if css_text e b then Some (''beautified_'' @ filename b) else None)"

definition counters_agree :: "DecompilationResult \<Rightarrow> bool" where
  "counters_agree r =
     (analysis_summary.components (analysis r) = length (components r) \<and>
      analysis_summary.modules (analysis r) = length (modules r))"

lemma downloadAndDecompileJS_effect:
  "\<exists>r'. downloadAndDecompileJS e b r = Some r' \<and> bundles r' = bundles r \<and>
     (counters_agree r \<longrightarrow> counters_agree r') \<and>
     jsFiles (analysis r') = jsFiles (analysis r) + (if beautified e b then 1 else 0) \<and>
     cssFiles (analysis r') = cssFiles (analysis r) \<and>
     fst ` set (originalFiles r') =
       fst ` set (originalFiles r) \<union> (if retrieved e b then {filename b} else {}) \<and>
     (type b = JS \<longrightarrow>
      fst ` set (beautifiedFiles r') = fst ` set (beautifiedFiles r) \<union> {k. written e b = Some k})"
proof (cases "http_get e 30000 True (BundleInfo.url b)")
  case None
  then show ?thesis
    by (simp add: downloadAndDecompileJS_def beautified_def retrieved_def written_def)
next
  case (Some response)
  show ?thesis
  proof (cases "beautify e (data response)")
    case None
    with Some show ?thesis
      by (simp add: downloadAndDecompileJS_def beautified_def retrieved_def written_def Let_def
          counters_agree_def dom_update)
  next
    case (Some js)
    let ?r2 = "r\<lparr>originalFiles := AList.update (filename b) (data response) (originalFiles r),
                  beautifiedFiles :=
                    AList.update (''beautified_'' @ filename b) (JString js) (beautifiedFiles r),
                  analysis := (analysis r)\<lparr>jsFiles := Suc (jsFiles (analysis r))\<rparr>\<rparr>"
    obtain cs where cs: "extractReactComponents js (filename b) ?r2 =
        Some (?r2\<lparr>components := components ?r2 @ cs,
                  analysis := (analysis ?r2)\<lparr>analysis_summary.components := length (components ?r2 @ cs)\<rparr>\<rparr>)"
      (is "_ = Some ?r3")
      using extractReactComponents_returns by blast
    obtain ms where ms: "extractModules js (filename b) ?r3 =
        Some (?r3\<lparr>modules := modules ?r3 @ ms,
                  analysis := (analysis ?r3)\<lparr>analysis_summary.modules := length (modules ?r3 @ ms)\<rparr>\<rparr>)"
      (is "_ = Some ?r4")
      using extractModules_returns by blast
    from \<open>http_get e 30000 True (BundleInfo.url b) = Some response\<close> Some cs ms
    have "downloadAndDecompileJS e b r = Some ?r4"
      by (simp add: downloadAndDecompileJS_def Let_def)
    moreover have "beautified e b" "retrieved e b"
      using \<open>http_get e 30000 True (BundleInfo.url b) = Some response\<close> Some
      by (simp_all add: beautified_def retrieved_def)
    ultimately show ?thesis by (simp add: counters_agree_def written_def dom_update)
  qed
qed

lemma downloadAndDecompileCSS_effect:
  "bundles (downloadAndDecompileCSS e b r) = bundles r \<and>
   (counters_agree r \<longrightarrow> counters_agree (downloadAndDecompileCSS e b r)) \<and>
   jsFiles (analysis (downloadAndDecompileCSS e b r)) = jsFiles (analysis r) \<and>
   cssFiles (analysis (downloadAndDecompileCSS e b r)) =
     cssFiles (analysis r) + (if css_text e b then 1 else 0) \<and>
   fst ` set (originalFiles (downloadAndDecompileCSS e b r)) =
     fst ` set (originalFiles r) \<union> (if retrieved e b then {filename b} else {}) \<and>
   (type b = CSS \<longrightarrow>
    fst ` set (beautifiedFiles (downloadAndDecompileCSS e b r)) =
      fst ` set (beautifiedFiles r) \<union> {k. written e b = Some k})"
proof (cases "http_get e 30000 True (BundleInfo.url b)")
  case None
  then show ?thesis
    by (simp add: downloadAndDecompileCSS_def css_text_def retrieved_def written_def)
next
  case (Some response)
  then show ?thesis
    by (cases "data response")
      (simp_all add: downloadAndDecompileCSS_def css_text_def retrieved_def written_def
        counters_agree_def Let_def dom_update)
qed

lemma process_bundles_effect:
  "\<exists>r'. process_bundles e bs r = Some r' \<and> bundles r' = bundles r \<and>
     (counters_agree r \<longrightarrow> counters_agree r') \<and>
     jsFiles (analysis r') =
       jsFiles (analysis r) + length (filter (\<lambda>b. type b = JS \<and> beautified e b) bs) \<and>
     cssFiles (analysis r') =
       cssFiles (analysis r) + length (filter (\<lambda>b. type b = CSS \<and> css_text e b) bs) \<and>
     fst ` set (originalFiles r') =
       fst ` set (originalFiles r) \<union> filename ` {b \<in> set bs. retrieved e b} \<and>
     fst ` set (beautifiedFiles r') =
       fst ` set (beautifiedFiles r) \<union> {k. \<exists>b \<in> set bs. written e b = Some k}"
proof (induction bs arbitrary: r)
  case Nil
  then show ?case by simp
next
  case (Cons b bs)
  show ?case
  proof (cases "type b")
    case JS
    from downloadAndDecompileJS_effect [of e b r] JS obtain r1 where r1:
      "downloadAndDecompileJS e b r = Some r1" "bundles r1 = bundles r"
      "counters_agree r \<longrightarrow> counters_agree r1"
      "jsFiles (analysis r1) = jsFiles (analysis r) + (if beautified e b then 1 else 0)"
      "cssFiles (analysis r1) = cssFiles (analysis r)"
      "fst ` set (originalFiles r1) =
         fst ` set (originalFiles r) \<union> (if retrieved e b then {filename b} else {})"
      "fst ` set (beautifiedFiles r1) = fst ` set (beautifiedFiles r) \<union> {k. written e b = Some k}"
      by blast
    from Cons.IH [of r1] obtain r' where all:
       "(process_bundles e bs r1 = Some r') \<and>
        (bundles r' = bundles r1) \<and>
        (counters_agree r1 \<longrightarrow> counters_agree r') \<and>
        (jsFiles (analysis r') =
         jsFiles (analysis r1) + length (filter (\<lambda>b. type b = JS \<and> beautified e b) bs)) \<and>
        (cssFiles (analysis r') =
         cssFiles (analysis r1) + length (filter (\<lambda>b. type b = CSS \<and> css_text e b) bs)) \<and>
        (fst ` set (originalFiles r') =
         fst ` set (originalFiles r1) \<union> filename ` {b \<in> set bs. retrieved e b}) \<and>
        (fst ` set (beautifiedFiles r') =
         fst ` set (beautifiedFiles r1) \<union> {k. \<exists>b \<in> set bs. written e b = Some k})"
      by (rule exE)
    have r': "process_bundles e bs r1 = Some r'"
      "bundles r' = bundles r1"
      "counters_agree r1 \<longrightarrow> counters_agree r'"
      "jsFiles (analysis r') =
         jsFiles (analysis r1) + length (filter (\<lambda>b. type b = JS \<and> beautified e b) bs)"
      "cssFiles (analysis r') =
         cssFiles (analysis r1) + length (filter (\<lambda>b. type b = CSS \<and> css_text e b) bs)"
      "fst ` set (originalFiles r') =
         fst ` set (originalFiles r1) \<union> filename ` {b \<in> set bs. retrieved e b}"
      "fst ` set (beautifiedFiles r') =
         fst ` set (beautifiedFiles r1) \<union> {k. \<exists>b \<in> set bs. written e b = Some k}"
      using all by simp_all
    have run: "process_bundles e (b # bs) r = Some r'" using JS r1(1) r'(1) by simp
    have counts: "bundles r' = bundles r" "counters_agree r \<longrightarrow> counters_agree r'"
      "jsFiles (analysis r') =
         jsFiles (analysis r) + length (filter (\<lambda>b. type b = JS \<and> beautified e b) (b # bs))"
      "cssFiles (analysis r') =
         cssFiles (analysis r) + length (filter (\<lambda>b. type b = CSS \<and> css_text e b) (b # bs))"
      using JS r1 r' by simp_all
    have originals: "fst ` set (originalFiles r') =
        fst ` set (originalFiles r) \<union> filename ` {x \<in> set (b # bs). retrieved e x}"
      unfolding r'(6) r1(6) by auto
    have beautifieds: "fst ` set (beautifiedFiles r') =
        fst ` set (beautifiedFiles r) \<union> {k. \<exists>x \<in> set (b # bs). written e x = Some k}"
      unfolding r'(7) r1(7) by auto
    show ?thesis by (intro exI [of _ r'] conjI run counts originals beautifieds)
  next
    case CSS
    let ?r1 = "downloadAndDecompileCSS e b r"
    from downloadAndDecompileCSS_effect [of e b r] CSS have r1:
      "bundles ?r1 = bundles r"
      "counters_agree r \<longrightarrow> counters_agree ?r1"
      "jsFiles (analysis ?r1) = jsFiles (analysis r)"
      "cssFiles (analysis ?r1) = cssFiles (analysis r) + (if css_text e b then 1 else 0)"
      "fst ` set (originalFiles ?r1) =
         fst ` set (originalFiles r) \<union> (if retrieved e b then {filename b} else {})"
      "fst ` set (beautifiedFiles ?r1) = fst ` set (beautifiedFiles r) \<union> {k. written e b = Some k}"
      by blast+
    from Cons.IH [of ?r1] obtain r' where all:
       "(process_bundles e bs ?r1 = Some r') \<and>
        (bundles r' = bundles ?r1) \<and>
        (counters_agree ?r1 \<longrightarrow> counters_agree r') \<and>
        (jsFiles (analysis r') =
         jsFiles (analysis ?r1) + length (filter (\<lambda>b. type b = JS \<and> beautified e b) bs)) \<and>
        (cssFiles (analysis r') =
         cssFiles (analysis ?r1) + length (filter (\<lambda>b. type b = CSS \<and> css_text e b) bs)) \<and>
        (fst ` set (originalFiles r') =
         fst ` set (originalFiles ?r1) \<union> filename ` {b \<in> set bs. retrieved e b}) \<and>
        (fst ` set (beautifiedFiles r') =
         fst ` set (beautifiedFiles ?r1) \<union> {k. \<exists>b \<in> set bs. written e b = Some k})"
      by (rule exE)
    have r': "process_bundles e bs ?r1 = Some r'"
      "bundles r' = bundles ?r1"
      "counters_agree ?r1 \<longrightarrow> counters_agree r'"
      "jsFiles (analysis r') =
         jsFiles (analysis ?r1) + length (filter (\<lambda>b. type b = JS \<and> beautified e b) bs)"
      "cssFiles (analysis r') =
         cssFiles (analysis ?r1) + length (filter (\<lambda>b. type b = CSS \<and> css_text e b) bs)"
      "fst ` set (originalFiles r') =
         fst ` set (originalFiles ?r1) \<union> filename ` {b \<in> set bs. retrieved e b}"
      "fst ` set (beautifiedFiles r') =
         fst ` set (beautifiedFiles ?r1) \<union> {k. \<exists>b \<in> set bs. written e b = Some k}"
      using all by simp_all
    have run: "process_bundles e (b # bs) r = Some r'" using CSS r'(1) by simp
    have counts: "bundles r' = bundles r" "counters_agree r \<longrightarrow> counters_agree r'"
      "jsFiles (analysis r') =
         jsFiles (analysis r) + length (filter (\<lambda>b. type b = JS \<and> beautified e b) (b # bs))"
      "cssFiles (analysis r') =
         cssFiles (analysis r) + length (filter (\<lambda>b. type b = CSS \<and> css_text e b) (b # bs))"
      using CSS r1 r' by simp_all
    have originals: "fst ` set (originalFiles r') =
        fst ` set (originalFiles r) \<union> filename ` {x \<in> set (b # bs). retrieved e x}"
      unfolding r'(6) r1(5) by auto
    have beautifieds: "fst ` set (beautifiedFiles r') =
        fst ` set (beautifiedFiles r) \<union> {k. \<exists>x \<in> set (b # bs). written e x = Some k}"
      unfolding r'(7) r1(6) by auto
    show ?thesis by (intro exI [of _ r'] conjI run counts originals beautifieds)
  qed
qed

lemma runFullDecompilation_returns: "\<exists>outcome. runFullDecompilation e u j = Some outcome"
proof (cases "analyzeHTML e (new_results e u j)")
  case (Inl message)
  then show ?thesis by (simp add: runFullDecompilation_def)
next
  case (Inr p)
  obtain bs r1 where "p = (bs, r1)" by (cases p)
  with Inr process_bundles_effect [of e bs "trySourceMapRecovery e r1"] show ?thesis
    by (auto simp: runFullDecompilation_def)
qed

lemma process_bundles_skip:
  "http_get e 30000 True (BundleInfo.url b) = None \<Longrightarrow>
   process_bundles e (before @ b # rest) r = process_bundles e (before @ rest) r"
proof (induction before arbitrary: r)
  case Nil
  then show ?case
    by (cases "type b") (simp_all add: downloadAndDecompileJS_def downloadAndDecompileCSS_def)
next
  case (Cons x before)
  then show ?case by (simp split: bundle_type.splits option.splits)
qed
section \<open>Fatal failures\<close>

text \<open>
  C3. For a valid submission whose root document cannot be fetched, or whose
  discovery returns no bundle, the handler answers with the error response (status
  500, \<open>Decompilation failed\<close>, and the message of the error as details) and
  returns the registry as it was: nothing is saved, and a job id without an entry
  before has none afterwards.
\<close>

theorem fatal_failure_saves_nothing:
  assumes "DecompilationRequest.url body \<noteq> []"
    and "DecompilationRequest.jobId body \<noteq> []"
    and "url_valid e (DecompilationRequest.url body)"
    and "http_get e 15000 True (DecompilationRequest.url body) = None \<or>
         (\<exists>r. analyzeHTML e
                (new_results e (DecompilationRequest.url body) (DecompilationRequest.jobId body)) =
              Inr ([], r))"
  shows "\<exists>message st'.
           POST e st body = Some (PostError 500 decompilation_failed (Some message), st') \<and>
           st' = st \<and>
           message =
             (if http_get e 15000 True (DecompilationRequest.url body) = None
              then analyze_failed else no_bundles) \<and>
           (jobStorage_get st (DecompilationRequest.jobId body) = None \<longrightarrow>
            jobStorage_get st' (DecompilationRequest.jobId body) = None)"
proof (cases "http_get e 15000 True (DecompilationRequest.url body)")
  case None
  then have "analyzeHTML e
      (new_results e (DecompilationRequest.url body) (DecompilationRequest.jobId body)) =
      Inl analyze_failed"
    by (simp add: analyzeHTML_def new_results_def)
  with assms(1-3) None show ?thesis
    by (simp add: POST_def runFullDecompilation_def)
next
  case (Some response)
  with assms(4) obtain r where "analyzeHTML e
      (new_results e (DecompilationRequest.url body) (DecompilationRequest.jobId body)) =
      Inr ([], r)" by auto
  with assms(1-3) Some show ?thesis
    by (simp add: POST_def runFullDecompilation_def)
qed

theorem fatal_failure_saves_nothing_witness:
  "POST (example_site\<lparr>http_get := \<lambda>timeout browser u. None\<rparr>) [] example_request =
     Some (PostError 500 ''Decompilation failed'' (Some ''Failed to analyze HTML structure''), []) \<and>
   POST (example_site\<lparr>parse_html := \<lambda>html. Some []\<rparr>) [] example_request =
     Some (PostError 500 ''Decompilation failed'' (Some ''No bundles found to decompile''), [])"
proof -
  let ?down = "example_site\<lparr>http_get := \<lambda>timeout browser u. None\<rparr>"
  let ?bare = "example_site\<lparr>parse_html := \<lambda>html. Some []\<rparr>"
  have request: "DecompilationRequest.url example_request \<noteq> []"
    "DecompilationRequest.jobId example_request \<noteq> []"
    by (simp_all add: example_request_def example_url_def)
  have valid: "url_valid ?down (DecompilationRequest.url example_request)"
    "url_valid ?bare (DecompilationRequest.url example_request)"
    by (simp_all add: example_site_def)
  have down: "http_get ?down 15000 True (DecompilationRequest.url example_request) = None \<or>
      (\<exists>r. analyzeHTML ?down (new_results ?down (DecompilationRequest.url example_request)
         (DecompilationRequest.jobId example_request)) = Inr ([], r))"
    by simp
  have bare: "http_get ?bare 15000 True (DecompilationRequest.url example_request) = None \<or>
      (\<exists>r. analyzeHTML ?bare (new_results ?bare (DecompilationRequest.url example_request)
         (DecompilationRequest.jobId example_request)) = Inr ([], r))"
    by (simp add: run_defs)
  have fetched: "http_get ?bare 15000 True (DecompilationRequest.url example_request) \<noteq> None"
    by (simp add: run_defs)
  from fatal_failure_saves_nothing [OF request valid(1) down, of "[]"]
    fatal_failure_saves_nothing [OF request valid(2) bare, of "[]"] fetched
  show ?thesis
    by (simp add: decompilation_failed_def analyze_failed_def no_bundles_def)
qed

section \<open>A bundle that cannot be retrieved\<close>

text \<open>
  C5. When the fetch of a bundle fails, processing it leaves the record as it was
  (no entry in \<open>originalFiles\<close> or \<open>beautifiedFiles\<close>, no counter changed). The
  loop over the bundles goes on and returns what it returns without that bundle:
  the counters count the other bundles that were beautified, every other bundle
  that was retrieved has its key in \<open>originalFiles\<close>, and the keys written to
  \<open>beautifiedFiles\<close> are those of the other bundles. The job returns this record,
  with the failed bundle still in its list of bundles. In particular, when
  discovery finds this one script only, the job returns the record of source map
  recovery: one bundle in the list, no beautified file, \<open>jsFiles = 0\<close>, and, when
  the source map cannot be fetched either, \<open>index.html\<close> as the only original
  file.
\<close>

theorem failed_bundle_is_dropped:
  assumes "http_get e 30000 True (BundleInfo.url b) = None"
  shows "downloadAndDecompileJS e b r = Some r \<and>
         downloadAndDecompileCSS e b r = r \<and>
         (\<exists>r'. process_bundles e (before @ b # rest) r = Some r' \<and>
               process_bundles e (before @ rest) r = Some r' \<and>
               jsFiles (analysis r') =
                 jsFiles (analysis r) +
                 length (filter (\<lambda>x. type x = JS \<and> beautified e x) (before @ rest)) \<and>
               cssFiles (analysis r') =
                 cssFiles (analysis r) +
                 length (filter (\<lambda>x. type x = CSS \<and> css_text e x) (before @ rest)) \<and>
               fst ` set (originalFiles r') =
                 fst ` set (originalFiles r) \<union>
                 filename ` {x \<in> set (before @ rest). retrieved e x} \<and>
               fst ` set (beautifiedFiles r') =
                 fst ` set (beautifiedFiles r) \<union>
                 {k. \<exists>x \<in> set (before @ rest). written e x = Some k}) \<and>
         (\<forall>r1. analyzeHTML e (new_results e u j) = Inr (before @ b # rest, r1) \<longrightarrow>
            (\<exists>r'. runFullDecompilation e u j = Some (Inr r') \<and>
                  process_bundles e (before @ rest) (trySourceMapRecovery e r1) = Some r' \<and>
                  bundles r' = before @ b # rest \<and>
                  jsFiles (analysis r') =
                    length (filter (\<lambda>x. type x = JS \<and> beautified e x) (before @ rest)) \<and>
                  cssFiles (analysis r') =
                    length (filter (\<lambda>x. type x = CSS \<and> css_text e x) (before @ rest)) \<and>
                  fst ` set (originalFiles r') =
                    fst ` set (originalFiles (trySourceMapRecovery e r1)) \<union>
                    filename ` {x \<in> set (before @ rest). retrieved e x} \<and>
                  fst ` set (beautifiedFiles r') =
                    {k. \<exists>x \<in> set (before @ rest). written e x = Some k})) \<and>
         (\<forall>r1. type b = JS \<and> analyzeHTML e (new_results e u j) = Inr ([b], r1) \<longrightarrow>
            (\<exists>r'. runFullDecompilation e u j = Some (Inr r') \<and>
                  r' = trySourceMapRecovery e r1 \<and>
                  length (bundles r') = 1 \<and>
                  beautifiedFiles r' = [] \<and>
                  jsFiles (analysis r') = 0 \<and>
                  cssFiles (analysis r') = 0 \<and>
                  components r' = [] \<and> modules r' = [] \<and>
                  (http_get e 10000 False (BundleInfo.url b @ ''.map'') = None \<longrightarrow>
                   map fst (originalFiles r') = [''index.html''])))"
proof -
  have js: "downloadAndDecompileJS e b r = Some r" for r
    using assms by (simp add: downloadAndDecompileJS_def)
  have css: "downloadAndDecompileCSS e b r = r" for r
    using assms by (simp add: downloadAndDecompileCSS_def)
  have skip: "process_bundles e (before @ b # rest) r = process_bundles e (before @ rest) r"
    for r before rest
    using assms by (rule process_bundles_skip)
  have others: "\<exists>r'. process_bundles e (before @ b # rest) r = Some r' \<and>
               process_bundles e (before @ rest) r = Some r' \<and>
               bundles r' = bundles r \<and>
               jsFiles (analysis r') =
                 jsFiles (analysis r) +
                 length (filter (\<lambda>x. type x = JS \<and> beautified e x) (before @ rest)) \<and>
               cssFiles (analysis r') =
                 cssFiles (analysis r) +
                 length (filter (\<lambda>x. type x = CSS \<and> css_text e x) (before @ rest)) \<and>
               fst ` set (originalFiles r') =
                 fst ` set (originalFiles r) \<union>
                 filename ` {x \<in> set (before @ rest). retrieved e x} \<and>
               fst ` set (beautifiedFiles r') =
                 fst ` set (beautifiedFiles r) \<union>
                 {k. \<exists>x \<in> set (before @ rest). written e x = Some k}" for r
  proof -
    from process_bundles_effect [of e "before @ rest" r] obtain r' where all:
      "process_bundles e (before @ rest) r = Some r' \<and> bundles r' = bundles r \<and>
       (counters_agree r \<longrightarrow> counters_agree r') \<and>
       jsFiles (analysis r') =
         jsFiles (analysis r) +
         length (filter (\<lambda>x. type x = JS \<and> beautified e x) (before @ rest)) \<and>
       cssFiles (analysis r') =
         cssFiles (analysis r) +
         length (filter (\<lambda>x. type x = CSS \<and> css_text e x) (before @ rest)) \<and>
       fst ` set (originalFiles r') =
         fst ` set (originalFiles r) \<union> filename ` {x \<in> set (before @ rest). retrieved e x} \<and>
       fst ` set (beautifiedFiles r') =
         fst ` set (beautifiedFiles r) \<union>
         {k. \<exists>x \<in> set (before @ rest). written e x = Some k}"
      by (rule exE)
    show ?thesis
      by (rule exI [of _ r']) (use all skip [of before rest r] in simp)
  qed
  have job: "\<exists>r'. runFullDecompilation e u j = Some (Inr r') \<and>
                  process_bundles e (before @ rest) (trySourceMapRecovery e r1) = Some r' \<and>
                  bundles r' = before @ b # rest \<and>
                  jsFiles (analysis r') =
                    length (filter (\<lambda>x. type x = JS \<and> beautified e x) (before @ rest)) \<and>
                  cssFiles (analysis r') =
                    length (filter (\<lambda>x. type x = CSS \<and> css_text e x) (before @ rest)) \<and>
                  fst ` set (originalFiles r') =
                    fst ` set (originalFiles (trySourceMapRecovery e r1)) \<union>
                    filename ` {x \<in> set (before @ rest). retrieved e x} \<and>
                  fst ` set (beautifiedFiles r') =
                    {k. \<exists>x \<in> set (before @ rest). written e x = Some k}"
    if found: "analyzeHTML e (new_results e u j) = Inr (before @ b # rest, r1)" for r1
  proof -
    from analyzeHTML_Inr [OF found] obtain response :: http_response where r1:
      "r1 = (new_results e u j)\<lparr>originalFiles :=
               AList.update ''index.html'' (data response) (originalFiles (new_results e u j)),
             bundles := before @ b # rest\<rparr>" by blast
    obtain fs where fs: "trySourceMapRecovery e r1 = r1\<lparr>originalFiles := fs\<rparr>"
      using trySourceMapRecovery_frame by blast
    have start: "bundles (trySourceMapRecovery e r1) = before @ b # rest"
      "jsFiles (analysis (trySourceMapRecovery e r1)) = 0"
      "cssFiles (analysis (trySourceMapRecovery e r1)) = 0"
      "beautifiedFiles (trySourceMapRecovery e r1) = []"
      using fs r1 by (simp_all add: new_results_def)
    from others [of "trySourceMapRecovery e r1"] obtain r' where all:
      "process_bundles e (before @ b # rest) (trySourceMapRecovery e r1) = Some r' \<and>
       process_bundles e (before @ rest) (trySourceMapRecovery e r1) = Some r' \<and>
       bundles r' = bundles (trySourceMapRecovery e r1) \<and>
       jsFiles (analysis r') =
         jsFiles (analysis (trySourceMapRecovery e r1)) +
         length (filter (\<lambda>x. type x = JS \<and> beautified e x) (before @ rest)) \<and>
       cssFiles (analysis r') =
         cssFiles (analysis (trySourceMapRecovery e r1)) +
         length (filter (\<lambda>x. type x = CSS \<and> css_text e x) (before @ rest)) \<and>
       fst ` set (originalFiles r') =
         fst ` set (originalFiles (trySourceMapRecovery e r1)) \<union>
         filename ` {x \<in> set (before @ rest). retrieved e x} \<and>
       fst ` set (beautifiedFiles r') =
         fst ` set (beautifiedFiles (trySourceMapRecovery e r1)) \<union>
         {k. \<exists>x \<in> set (before @ rest). written e x = Some k}"
      by (rule exE)
    then have run: "runFullDecompilation e u j = Some (Inr r')"
      using found by (simp add: runFullDecompilation_def)
    show ?thesis
      by (rule exI [of _ r']) (use all run start in simp)
  qed
  have alone: "\<exists>r'. runFullDecompilation e u j = Some (Inr r') \<and>
                  r' = trySourceMapRecovery e r1 \<and>
                  length (bundles r') = 1 \<and>
                  beautifiedFiles r' = [] \<and>
                  jsFiles (analysis r') = 0 \<and>
                  cssFiles (analysis r') = 0 \<and>
                  components r' = [] \<and> modules r' = [] \<and>
                  (http_get e 10000 False (BundleInfo.url b @ ''.map'') = None \<longrightarrow>
                   map fst (originalFiles r') = [''index.html''])"
    if found: "analyzeHTML e (new_results e u j) = Inr ([b], r1)" and "type b = JS" for r1
  proof -
    from analyzeHTML_Inr [OF found] obtain response :: http_response where r1:
      "r1 = (new_results e u j)\<lparr>originalFiles :=
               AList.update ''index.html'' (data response) (originalFiles (new_results e u j)),
             bundles := [b]\<rparr>" by blast
    obtain fs where fs: "trySourceMapRecovery e r1 = r1\<lparr>originalFiles := fs\<rparr>"
      using trySourceMapRecovery_frame by blast
    have run: "runFullDecompilation e u j = Some (Inr (trySourceMapRecovery e r1))"
      using found skip [of "[]" "[]"] by (simp add: runFullDecompilation_def)
    have nomap: "map fst (originalFiles (trySourceMapRecovery e r1)) = [''index.html'']"
      if "http_get e 10000 False (BundleInfo.url b @ ''.map'') = None"
      using that r1 by (simp add: trySourceMapRecovery_def new_results_def)
    from run fs r1 nomap show ?thesis by (simp add: new_results_def)
  qed
  have first: "\<exists>r'. process_bundles e (before @ b # rest) r = Some r' \<and>
               process_bundles e (before @ rest) r = Some r' \<and>
               jsFiles (analysis r') =
                 jsFiles (analysis r) +
                 length (filter (\<lambda>x. type x = JS \<and> beautified e x) (before @ rest)) \<and>
               cssFiles (analysis r') =
                 cssFiles (analysis r) +
                 length (filter (\<lambda>x. type x = CSS \<and> css_text e x) (before @ rest)) \<and>
               fst ` set (originalFiles r') =
                 fst ` set (originalFiles r) \<union>
                 filename ` {x \<in> set (before @ rest). retrieved e x} \<and>
               fst ` set (beautifiedFiles r') =
                 fst ` set (beautifiedFiles r) \<union>
                 {k. \<exists>x \<in> set (before @ rest). written e x = Some k}"
  proof -
    from others [of r] obtain r' where all:
      "process_bundles e (before @ b # rest) r = Some r' \<and>
       process_bundles e (before @ rest) r = Some r' \<and>
       bundles r' = bundles r \<and>
       jsFiles (analysis r') =
         jsFiles (analysis r) +
         length (filter (\<lambda>x. type x = JS \<and> beautified e x) (before @ rest)) \<and>
       cssFiles (analysis r') =
         cssFiles (analysis r) +
         length (filter (\<lambda>x. type x = CSS \<and> css_text e x) (before @ rest)) \<and>
       fst ` set (originalFiles r') =
         fst ` set (originalFiles r) \<union> filename ` {x \<in> set (before @ rest). retrieved e x} \<and>
       fst ` set (beautifiedFiles r') =
         fst ` set (beautifiedFiles r) \<union>
         {k. \<exists>x \<in> set (before @ rest). written e x = Some k}"
      by (rule exE)
    show ?thesis
      by (rule exI [of _ r']) (use all in simp)
  qed
  show ?thesis
    by (intro conjI allI impI js css first job alone; (elim conjE)?; assumption)
qed

theorem failed_bundle_is_dropped_witness:
  "runFullDecompilation
     (example_site\<lparr>http_get := example_get [(''https://example.com/'', JString ''<html>''),
                                             (''https://example.com/style.css'', JString ''a{b:c}'')],
                   parse_html := \<lambda>html. Some [script_element ''/bundle.js'',
                                                stylesheet_element ''/style.css'']\<rparr>)
     example_url ''job1'' =
   Some (Inr ((new_results example_site example_url ''job1'')
          \<lparr>originalFiles := [(''index.html'', JString ''<html>''),
                              (''style.css'', JString ''a{b:c}'')],
            beautifiedFiles := [(''beautified_style.css'', JString (''a {'' @ NL @ ''  b:c'' @ NL @ ''}''))],
            bundles := [\<lparr>BundleInfo.url = ''https://example.com/bundle.js'', type = JS,
                         filename = ''bundle.js''\<rparr>,
                        \<lparr>BundleInfo.url = ''https://example.com/style.css'', type = CSS,
                         filename = ''style.css''\<rparr>],
            analysis := \<lparr>jsFiles = 0, cssFiles = 1, analysis_summary.components = 0,
                          analysis_summary.modules = 0\<rparr>\<rparr>)) \<and>
   runFullDecompilation
     (example_site\<lparr>http_get := example_get [(''https://example.com/'', JString ''<html>'')],
                   parse_html := \<lambda>html. Some [script_element ''/bundle.js'']\<rparr>)
     example_url ''job1'' =
   Some (Inr ((new_results example_site example_url ''job1'')
          \<lparr>originalFiles := [(''index.html'', JString ''<html>'')],
            bundles := [\<lparr>BundleInfo.url = ''https://example.com/bundle.js'', type = JS,
                         filename = ''bundle.js''\<rparr>]\<rparr>))"
proof
  let ?e = "example_site\<lparr>http_get := example_get [(''https://example.com/'', JString ''<html>''),
                                             (''https://example.com/style.css'', JString ''a{b:c}'')],
                   parse_html := \<lambda>html. Some [script_element ''/bundle.js'',
                                                stylesheet_element ''/style.css'']\<rparr>"
  let ?b = "\<lparr>BundleInfo.url = ''https://example.com/bundle.js'', type = JS, filename = ''bundle.js''\<rparr>"
  let ?c = "\<lparr>BundleInfo.url = ''https://example.com/style.css'', type = CSS, filename = ''style.css''\<rparr>"
  let ?r1 = "(new_results example_site example_url ''job1'')
          \<lparr>originalFiles := [(''index.html'', JString ''<html>'')], bundles := [?b, ?c]\<rparr>"
  have failed: "http_get ?e 30000 True (BundleInfo.url ?b) = None"
    by (simp add: run_defs)
  have found: "analyzeHTML ?e (new_results ?e example_url ''job1'') = Inr ([] @ ?b # [?c], ?r1)"
    by (simp add: run_defs)
  have nomap: "trySourceMapRecovery ?e ?r1 = ?r1"
    by (simp add: run_defs)
  from failed_bundle_is_dropped [OF failed, where before = "[]" and rest = "[?c]"
      and u = example_url and j = "''job1''"] found nomap
  obtain r' where r': "runFullDecompilation ?e example_url ''job1'' = Some (Inr r')"
    "process_bundles ?e ([] @ [?c]) ?r1 = Some r'"
    by auto
  from r'(2) have "r' = ?r1\<lparr>originalFiles := [(''index.html'', JString ''<html>''),
                              (''style.css'', JString ''a{b:c}'')],
            beautifiedFiles := [(''beautified_style.css'', JString (''a {'' @ NL @ ''  b:c'' @ NL @ ''}''))],
            analysis := \<lparr>jsFiles = 0, cssFiles = 1, analysis_summary.components = 0,
                          analysis_summary.modules = 0\<rparr>\<rparr>"
    by (simp add: run_defs)
  with r'(1) show "runFullDecompilation ?e example_url ''job1'' =
   Some (Inr ((new_results example_site example_url ''job1'')
          \<lparr>originalFiles := [(''index.html'', JString ''<html>''),
                              (''style.css'', JString ''a{b:c}'')],
            beautifiedFiles := [(''beautified_style.css'', JString (''a {'' @ NL @ ''  b:c'' @ NL @ ''}''))],
            bundles := [?b, ?c],
            analysis := \<lparr>jsFiles = 0, cssFiles = 1, analysis_summary.components = 0,
                          analysis_summary.modules = 0\<rparr>\<rparr>))"
    by (simp add: new_results_def)
next
  let ?e = "example_site\<lparr>http_get := example_get [(''https://example.com/'', JString ''<html>'')],
                         parse_html := \<lambda>html. Some [script_element ''/bundle.js'']\<rparr>"
  let ?b = "\<lparr>BundleInfo.url = ''https://example.com/bundle.js'', type = JS, filename = ''bundle.js''\<rparr>"
  let ?r1 = "(new_results example_site example_url ''job1'')
          \<lparr>originalFiles := [(''index.html'', JString ''<html>'')], bundles := [?b]\<rparr>"
  have failed: "http_get ?e 30000 True (BundleInfo.url ?b) = None"
    by (simp add: run_defs)
  have found: "type ?b = JS \<and> analyzeHTML ?e (new_results ?e example_url ''job1'') = Inr ([?b], ?r1)"
    by (simp add: run_defs)
  have nomap: "trySourceMapRecovery ?e ?r1 = ?r1"
    by (simp add: run_defs)
  from failed_bundle_is_dropped [OF failed, where u = example_url and j = "''job1''"] found nomap
  show "runFullDecompilation ?e example_url ''job1'' =
   Some (Inr ((new_results example_site example_url ''job1'')
          \<lparr>originalFiles := [(''index.html'', JString ''<html>'')], bundles := [?b]\<rparr>))"
    by auto
qed

section \<open>The counters at hand-off\<close>

text \<open>
  A bundle is counted when processing it increments a file counter: a script that
  was beautified, a stylesheet that was retrieved as a string. These are the
  bundles that write a \<open>beautified_\<close> key.
\<close>

definition counted :: "env \<Rightarrow> BundleInfo \<Rightarrow> bool" where
  "counted e b = (case type b of JS \<Rightarrow> beautified e b | CSS \<Rightarrow> css_text e b)"

lemma written_beautified:
  "written e b = Some (''beautified_'' @ f) \<longleftrightarrow> filename b = f \<and> counted e b"
  by (cases "type b") (auto simp: written_def counted_def)

lemma length_card_distinct: "length xs = card (set xs) \<longleftrightarrow> distinct xs"
  using card_distinct [of xs] distinct_card [of xs] by auto

lemma written_cases:
  "written e b = Some k \<Longrightarrow> k = ''beautified_'' @ filename b \<or> k = ''raw_'' @ filename b"
  by (cases "type b") (auto simp: written_def split: if_splits)

lemma length_counted:
  "length (filter (counted e) bs) =
   length (filter (\<lambda>b. type b = JS \<and> beautified e b) bs) +
   length (filter (\<lambda>b. type b = CSS \<and> css_text e b) bs)"
proof (induction bs)
  case Nil
  then show ?case by simp
next
  case (Cons b bs)
  then show ?case by (cases "type b") (simp_all add: counted_def)
qed

lemma beautified_keys:
  assumes keys: "fst ` set fs = {k. \<exists>b \<in> set bs. written e b = Some k}"
  shows "{k \<in> fst ` set fs. \<exists>f. k = ''beautified_'' @ f} =
         (\<lambda>f. ''beautified_'' @ f) ` set (map filename (filter (counted e) bs))"
proof (rule set_eqI)
  fix k
  show "k \<in> {k \<in> fst ` set fs. \<exists>f. k = ''beautified_'' @ f} \<longleftrightarrow>
        k \<in> (\<lambda>f. ''beautified_'' @ f) ` set (map filename (filter (counted e) bs))"
  proof
    assume "k \<in> {k \<in> fst ` set fs. \<exists>f. k = ''beautified_'' @ f}"
    then obtain f where k: "k = ''beautified_'' @ f" and "k \<in> fst ` set fs" by blast
    with keys obtain b where b: "b \<in> set bs" "written e b = Some (''beautified_'' @ f)" by blast
    from b(2) have "filename b = f \<and> counted e b" by (simp only: written_beautified)
    then have "filename b = f" "counted e b" by simp_all
    with b(1) k show "k \<in> (\<lambda>f. ''beautified_'' @ f) ` set (map filename (filter (counted e) bs))"
      by auto
  next
    assume "k \<in> (\<lambda>f. ''beautified_'' @ f) ` set (map filename (filter (counted e) bs))"
    then obtain b where b: "b \<in> set bs" "counted e b" "k = ''beautified_'' @ filename b" by auto
    from b(2) have "written e b = Some (''beautified_'' @ filename b)"
      by (simp only: written_beautified simp_thms)
    with b(1, 3) keys show "k \<in> {k \<in> fst ` set fs. \<exists>f. k = ''beautified_'' @ f}" by blast
  qed
qed

lemma card_beautified_keys:
  assumes keys: "fst ` set fs = {k. \<exists>b \<in> set bs. written e b = Some k}"
  shows "card {k \<in> fst ` set fs. \<exists>f. k = ''beautified_'' @ f} =
         card (set (map filename (filter (counted e) bs)))"
proof -
  have "inj_on (\<lambda>f. ''beautified_'' @ f) (set (map filename (filter (counted e) bs)))"
    by (rule inj_onI) simp
  then show ?thesis
    by (simp only: beautified_keys [OF keys] card_image)
qed

lemma key_of_counted:
  assumes keys: "fst ` set fs = {k. \<exists>b \<in> set bs. written e b = Some k}"
    and different: "distinct (map filename bs)" and b: "b \<in> set bs"
  shows "map_of fs (''beautified_'' @ filename b) \<noteq> None \<longleftrightarrow> counted e b"
proof -
  have "map_of fs (''beautified_'' @ filename b) \<noteq> None \<longleftrightarrow>
        ''beautified_'' @ filename b \<in> fst ` set fs"
    by (simp add: map_of_eq_None_iff)
  also have "\<dots> \<longleftrightarrow> (\<exists>x \<in> set bs. filename x = filename b \<and> counted e x)"
    by (simp only: keys written_beautified mem_Collect_eq)
  also have "\<dots> \<longleftrightarrow> counted e b"
  proof
    assume "\<exists>x \<in> set bs. filename x = filename b \<and> counted e x"
    then obtain x where x: "x \<in> set bs" "filename x = filename b" "counted e x" by blast
    from different have "inj_on filename (set bs)" by (simp add: distinct_map)
    from inj_onD [OF this x(2) x(1) b] have "x = b" .
    with x(3) show "counted e b" by simp
  next
    assume "counted e b"
    with b show "\<exists>x \<in> set bs. filename x = filename b \<and> counted e x" by blast
  qed
  finally show ?thesis .
qed

lemma key_present:
  assumes keys: "fst ` set fs = {k. \<exists>b \<in> set bs. written e b = Some k}"
  shows "map_of fs (''beautified_'' @ f) \<noteq> None \<longleftrightarrow>
         (\<exists>x \<in> set bs. filename x = f \<and> counted e x)"
proof -
  have "map_of fs (''beautified_'' @ f) \<noteq> None \<longleftrightarrow> ''beautified_'' @ f \<in> fst ` set fs"
    by (simp add: map_of_eq_None_iff)
  also have "\<dots> \<longleftrightarrow> (\<exists>x \<in> set bs. filename x = f \<and> counted e x)"
    by (simp only: keys written_beautified mem_Collect_eq)
  finally show ?thesis .
qed

lemma length_filter_mono:
  "\<forall>x \<in> set xs. Q x \<longrightarrow> P x \<Longrightarrow> length (filter Q xs) \<le> length (filter P xs)"
  by (induction xs) auto

lemma length_filter_eq_iff:
  "\<forall>x \<in> set xs. Q x \<longrightarrow> P x \<Longrightarrow>
   length (filter Q xs) = length (filter P xs) \<longleftrightarrow> (\<forall>x \<in> set xs. P x \<longrightarrow> Q x)"
proof (induction xs)
  case Nil
  then show ?case by simp
next
  case (Cons x xs)
  from Cons.prems have sub: "\<forall>x \<in> set xs. Q x \<longrightarrow> P x" by simp
  from length_filter_mono [OF sub] have le: "length (filter Q xs) \<le> length (filter P xs)" .
  from Cons.IH [OF sub] Cons.prems le show ?case by auto
qed

lemma handoff:
  assumes "runFullDecompilation e u j = Some (Inr r)"
  shows "counters_agree r \<and>
         jsFiles (analysis r) = length (filter (\<lambda>b. type b = JS \<and> beautified e b) (bundles r)) \<and>
         cssFiles (analysis r) = length (filter (\<lambda>b. type b = CSS \<and> css_text e b) (bundles r)) \<and>
         fst ` set (beautifiedFiles r) = {k. \<exists>b \<in> set (bundles r). written e b = Some k}"
proof -
  from assms obtain bs r1 where
    found: "analyzeHTML e (new_results e u j) = Inr (bs, r1)" and
    processed: "process_bundles e bs (trySourceMapRecovery e r1) = Some r"
    by (auto simp: runFullDecompilation_def split: sum.splits if_splits option.splits)
  from analyzeHTML_Inr [OF found] obtain response :: http_response where
    r1: "r1 = (new_results e u j)\<lparr>originalFiles :=
              AList.update ''index.html'' (data response) (originalFiles (new_results e u j)),
            bundles := bs\<rparr>" by blast
  obtain fs where fs: "trySourceMapRecovery e r1 = r1\<lparr>originalFiles := fs\<rparr>"
    using trySourceMapRecovery_frame by blast
  have start: "counters_agree (trySourceMapRecovery e r1)"
    "jsFiles (analysis (trySourceMapRecovery e r1)) = 0"
    "cssFiles (analysis (trySourceMapRecovery e r1)) = 0"
    "bundles (trySourceMapRecovery e r1) = bs"
    "beautifiedFiles (trySourceMapRecovery e r1) = []"
    using fs r1 by (simp_all add: counters_agree_def new_results_def)
  from process_bundles_effect [of e bs "trySourceMapRecovery e r1"] processed start
  show ?thesis by simp
qed

lemma example_run:
  "(case runFullDecompilation example_site example_url ''job1'' of
      Some (Inr r) \<Rightarrow> Some (analysis r, map filename (bundles r), map fst (beautifiedFiles r))
    | _ \<Rightarrow> None) =
   Some (\<lparr>jsFiles = 1, cssFiles = 1, analysis_summary.components = 1,
           analysis_summary.modules = 0\<rparr>,
         [''bundle.js'', ''style.css''], [''beautified_bundle.js'', ''beautified_style.css''])"
  by (simp add: run_defs)

text \<open>
  C4 fails as stated for the file counters. Two scripts \<open>/a/app.js\<close> and
  \<open>/b/app.js\<close> are both retrieved and beautified: \<open>jsFiles\<close> is 2 and the
  beautified map has the one entry \<open>beautified_app.js\<close>. And when the beautifier
  throws on the script of the example site, the map records the bundle as
  \<open>raw_bundle.js\<close> and \<open>jsFiles\<close> is 0.
\<close>

theorem jsFiles_differs_from_map_entries:
  "(case runFullDecompilation
          (example_site\<lparr>http_get :=
               example_get [(''https://example.com/'', JString ''<html>''),
                            (''https://example.com/a/app.js'', JString ''function Header() { return jsx(1); }''),
                            (''https://example.com/b/app.js'', JString ''function Header() { return jsx(1); }'')],
             parse_html := \<lambda>html. Some [script_element ''/a/app.js'', script_element ''/b/app.js'']\<rparr>)
          example_url ''job1'' of
      Some (Inr r) \<Rightarrow> Some (jsFiles (analysis r), map fst (beautifiedFiles r))
    | _ \<Rightarrow> None) = Some (2, [''beautified_app.js'']) \<and>
   (case runFullDecompilation
          (example_site\<lparr>beautify := \<lambda>js. None,
             parse_html := \<lambda>html. Some [script_element ''/bundle.js'']\<rparr>)
          example_url ''job1'' of
      Some (Inr r) \<Rightarrow> Some (jsFiles (analysis r), map fst (beautifiedFiles r))
    | _ \<Rightarrow> None) = Some (0, [''raw_bundle.js''])"
  by (simp add: run_defs)

text \<open>
  C4 as amended. In the record a job returns, the component and module counters
  are the lengths of the two lists; \<open>jsFiles\<close> is the number of script bundles of
  the list that were retrieved and beautified, and \<open>cssFiles\<close> the number of
  stylesheet bundles of the list that were retrieved as a string. When no two
  bundles of the list share a file name, \<open>jsFiles\<close> and \<open>cssFiles\<close> are the numbers
  of script and stylesheet bundles that have their \<open>beautified_\<close> entry in the
  beautified-files map; they are these numbers exactly when no bundle that was not
  counted shares its file name with a counted one. And the two file counters add
  up to the number of \<open>beautified_\<close> entries of the map exactly when no two
  counted bundles share a file name.
\<close>

theorem counters_at_handoff:
  assumes "runFullDecompilation e u j = Some (Inr r)"
  shows "analysis_summary.components (analysis r) = length (components r) \<and>
         analysis_summary.modules (analysis r) = length (modules r) \<and>
         jsFiles (analysis r) = length (filter (\<lambda>b. type b = JS \<and> beautified e b) (bundles r)) \<and>
         cssFiles (analysis r) = length (filter (\<lambda>b. type b = CSS \<and> css_text e b) (bundles r)) \<and>
         (distinct (map filename (bundles r)) \<longrightarrow>
            jsFiles (analysis r) =
              length (filter (\<lambda>b. type b = JS \<and>
                         map_of (beautifiedFiles r) (''beautified_'' @ filename b) \<noteq> None) (bundles r)) \<and>
            cssFiles (analysis r) =
              length (filter (\<lambda>b. type b = CSS \<and>
                         map_of (beautifiedFiles r) (''beautified_'' @ filename b) \<noteq> None) (bundles r))) \<and>
         (jsFiles (analysis r) =
            length (filter (\<lambda>b. type b = JS \<and>
                       map_of (beautifiedFiles r) (''beautified_'' @ filename b) \<noteq> None) (bundles r)) \<and>
          cssFiles (analysis r) =
            length (filter (\<lambda>b. type b = CSS \<and>
                       map_of (beautifiedFiles r) (''beautified_'' @ filename b) \<noteq> None) (bundles r)) \<longleftrightarrow>
          (\<forall>b \<in> set (bundles r). \<forall>x \<in> set (bundles r).
             filename x = filename b \<and> counted e x \<longrightarrow> counted e b)) \<and>
         (jsFiles (analysis r) + cssFiles (analysis r) =
            card {k \<in> fst ` set (beautifiedFiles r). \<exists>f. k = ''beautified_'' @ f} \<longleftrightarrow>
          distinct (map filename (filter (counted e) (bundles r))))"
proof -
  from handoff [OF assms] have agree: "counters_agree r"
    and js: "jsFiles (analysis r) = length (filter (\<lambda>b. type b = JS \<and> beautified e b) (bundles r))"
    and css: "cssFiles (analysis r) = length (filter (\<lambda>b. type b = CSS \<and> css_text e b) (bundles r))"
    and keys: "fst ` set (beautifiedFiles r) = {k. \<exists>b \<in> set (bundles r). written e b = Some k}"
    by simp_all
  have entries: "jsFiles (analysis r) =
              length (filter (\<lambda>b. type b = JS \<and>
                         map_of (beautifiedFiles r) (''beautified_'' @ filename b) \<noteq> None) (bundles r)) \<and>
            cssFiles (analysis r) =
              length (filter (\<lambda>b. type b = CSS \<and>
                         map_of (beautifiedFiles r) (''beautified_'' @ filename b) \<noteq> None) (bundles r))"
    if different: "distinct (map filename (bundles r))"
  proof -
    define present where
      "present b = (map_of (beautifiedFiles r) (''beautified_'' @ filename b) \<noteq> None)"
      for b :: BundleInfo
    have present: "present b = counted e b" if "b \<in> set (bundles r)" for b
      unfolding present_def using keys different that by (rule key_of_counted)
    have "filter (\<lambda>b. type b = JS \<and> present b) (bundles r) =
          filter (\<lambda>b. type b = JS \<and> beautified e b) (bundles r)"
      by (rule filter_cong [OF refl]) (auto simp: present counted_def)
    moreover have "filter (\<lambda>b. type b = CSS \<and> present b) (bundles r) =
          filter (\<lambda>b. type b = CSS \<and> css_text e b) (bundles r)"
      by (rule filter_cong [OF refl]) (auto simp: present counted_def)
    ultimately have "jsFiles (analysis r) = length (filter (\<lambda>b. type b = JS \<and> present b) (bundles r)) \<and>
        cssFiles (analysis r) = length (filter (\<lambda>b. type b = CSS \<and> present b) (bundles r))"
      using js css by simp
    then show ?thesis unfolding present_def .
  qed
  have exact: "jsFiles (analysis r) =
            length (filter (\<lambda>b. type b = JS \<and>
                       map_of (beautifiedFiles r) (''beautified_'' @ filename b) \<noteq> None) (bundles r)) \<and>
          cssFiles (analysis r) =
            length (filter (\<lambda>b. type b = CSS \<and>
                       map_of (beautifiedFiles r) (''beautified_'' @ filename b) \<noteq> None) (bundles r)) \<longleftrightarrow>
          (\<forall>b \<in> set (bundles r). \<forall>x \<in> set (bundles r).
             filename x = filename b \<and> counted e x \<longrightarrow> counted e b)"
  proof -
    define present where
      "present b = (map_of (beautifiedFiles r) (''beautified_'' @ filename b) \<noteq> None)"
      for b :: BundleInfo
    have present: "present b \<longleftrightarrow> (\<exists>x \<in> set (bundles r). filename x = filename b \<and> counted e x)"
      for b unfolding present_def using keys by (rule key_present)
    have sub: "\<forall>b \<in> set (bundles r). type b = ty \<and> counted e b \<longrightarrow> type b = ty \<and> present b" for ty
      using present by blast
    have js': "jsFiles (analysis r) = length (filter (\<lambda>b. type b = JS \<and> counted e b) (bundles r))"
      unfolding js by (rule arg_cong [where f = length], rule filter_cong [OF refl])
        (auto simp: counted_def)
    have css': "cssFiles (analysis r) = length (filter (\<lambda>b. type b = CSS \<and> counted e b) (bundles r))"
      unfolding css by (rule arg_cong [where f = length], rule filter_cong [OF refl])
        (auto simp: counted_def)
    have "jsFiles (analysis r) = length (filter (\<lambda>b. type b = JS \<and> present b) (bundles r)) \<and>
          cssFiles (analysis r) = length (filter (\<lambda>b. type b = CSS \<and> present b) (bundles r)) \<longleftrightarrow>
          (\<forall>b \<in> set (bundles r). type b = JS \<and> present b \<longrightarrow> type b = JS \<and> counted e b) \<and>
          (\<forall>b \<in> set (bundles r). type b = CSS \<and> present b \<longrightarrow> type b = CSS \<and> counted e b)"
      unfolding js' css'
      by (simp only: length_filter_eq_iff [OF sub [of JS]] length_filter_eq_iff [OF sub [of CSS]])
    also have "\<dots> \<longleftrightarrow> (\<forall>b \<in> set (bundles r). present b \<longrightarrow> counted e b)"
    proof -
      have "type b = JS \<or> type b = CSS" for b :: BundleInfo by (cases "type b") simp_all
      then show ?thesis by blast
    qed
    also have "\<dots> \<longleftrightarrow> (\<forall>b \<in> set (bundles r). \<forall>x \<in> set (bundles r).
             filename x = filename b \<and> counted e x \<longrightarrow> counted e b)"
      unfolding present by blast
    finally show ?thesis unfolding present_def .
  qed
  have total: "jsFiles (analysis r) + cssFiles (analysis r) =
      length (map filename (filter (counted e) (bundles r)))"
    using js css by (simp add: length_counted)
  have sum: "jsFiles (analysis r) + cssFiles (analysis r) =
            card {k \<in> fst ` set (beautifiedFiles r). \<exists>f. k = ''beautified_'' @ f} \<longleftrightarrow>
          distinct (map filename (filter (counted e) (bundles r)))"
    unfolding total card_beautified_keys [OF keys]
    by (rule length_card_distinct)
  from agree have lists: "analysis_summary.components (analysis r) = length (components r)"
    "analysis_summary.modules (analysis r) = length (modules r)"
    by (simp_all add: counters_agree_def)
  from entries have entries: "distinct (map filename (bundles r)) \<longrightarrow>
            jsFiles (analysis r) =
              length (filter (\<lambda>b. type b = JS \<and>
                         map_of (beautifiedFiles r) (''beautified_'' @ filename b) \<noteq> None) (bundles r)) \<and>
            cssFiles (analysis r) =
              length (filter (\<lambda>b. type b = CSS \<and>
                         map_of (beautifiedFiles r) (''beautified_'' @ filename b) \<noteq> None) (bundles r))"
    by (rule impI)
  show ?thesis
    by (intro conjI) (rule lists js css entries exact sum)+
qed

theorem counters_at_handoff_witness:
  "\<exists>r. runFullDecompilation example_site example_url ''job1'' = Some (Inr r) \<and>
       analysis r = \<lparr>jsFiles = 1, cssFiles = 1, analysis_summary.components = 1,
                     analysis_summary.modules = 0\<rparr> \<and>
       map filename (bundles r) = [''bundle.js'', ''style.css''] \<and>
       map fst (beautifiedFiles r) = [''beautified_bundle.js'', ''beautified_style.css''] \<and>
       length (components r) = 1 \<and> length (modules r) = 0 \<and>
       length (filter (\<lambda>b. type b = JS \<and> beautified example_site b) (bundles r)) = 1 \<and>
       length (filter (\<lambda>b. type b = CSS \<and> css_text example_site b) (bundles r)) = 1 \<and>
       length (filter (\<lambda>b. type b = JS \<and>
                  map_of (beautifiedFiles r) (''beautified_'' @ filename b) \<noteq> None) (bundles r)) = 1 \<and>
       length (filter (\<lambda>b. type b = CSS \<and>
                  map_of (beautifiedFiles r) (''beautified_'' @ filename b) \<noteq> None) (bundles r)) = 1"
proof -
  from example_run obtain r where
    run: "runFullDecompilation example_site example_url ''job1'' = Some (Inr r)" and
    r: "analysis r = \<lparr>jsFiles = 1, cssFiles = 1, analysis_summary.components = 1,
                      analysis_summary.modules = 0\<rparr>"
       "map filename (bundles r) = [''bundle.js'', ''style.css'']"
       "map fst (beautifiedFiles r) = [''beautified_bundle.js'', ''beautified_style.css'']"
    by (auto split: option.splits sum.splits)
  have different: "distinct (map filename (bundles r))" by (simp add: r(2))
  from counters_at_handoff [OF run] different r(1)
  have "length (components r) = 1 \<and> length (modules r) = 0 \<and>
       length (filter (\<lambda>b. type b = JS \<and> beautified example_site b) (bundles r)) = 1 \<and>
       length (filter (\<lambda>b. type b = CSS \<and> css_text example_site b) (bundles r)) = 1 \<and>
       length (filter (\<lambda>b. type b = JS \<and>
                  map_of (beautifiedFiles r) (''beautified_'' @ filename b) \<noteq> None) (bundles r)) = 1 \<and>
       length (filter (\<lambda>b. type b = CSS \<and>
                  map_of (beautifiedFiles r) (''beautified_'' @ filename b) \<noteq> None) (bundles r)) = 1"
    by simp
  with run r show ?thesis
    by (intro exI [of _ r] conjI) simp_all
qed

section \<open>The CSS beautifier keeps every character that is not white space\<close>

lemma filter_dropWhile_space:
  "filter (\<lambda>c. \<not> is_space c) (dropWhile is_space s) = filter (\<lambda>c. \<not> is_space c) s"
  by (induction s) auto

lemma filter_trim: "filter (\<lambda>c. \<not> is_space c) (trim s) = filter (\<lambda>c. \<not> is_space c) s"
proof -
  have "filter (\<lambda>c. \<not> is_space c) (trim s) =
      rev (filter (\<lambda>c. \<not> is_space c) (dropWhile is_space (rev (dropWhile is_space s))))"
    by (simp add: trim_def rev_filter)
  also have "\<dots> = rev (filter (\<lambda>c. \<not> is_space c) (rev (dropWhile is_space s)))"
    by (simp only: filter_dropWhile_space)
  also have "\<dots> = filter (\<lambda>c. \<not> is_space c) (dropWhile is_space s)"
    by (simp add: rev_filter)
  finally show ?thesis by (simp only: filter_dropWhile_space)
qed

text \<open>
  A global replacement keeps the characters that satisfy \<open>P\<close> when every text the
  pattern matches has the same such characters as the replacement.
\<close>

lemma filter_replace_all:
  assumes same: "\<And>u c c'. sem r u c c' \<Longrightarrow> filter P u = filter P rep"
  shows "filter P (replace_all r rep s) = filter P s"
  using same
proof (induction r rep s rule: replace_all.induct)
  case (1 r rep s)
  note same = "1.prems"
  show ?case
  proof (cases "search r s")
    case None
    then show ?thesis by (simp add: replace_all.simps [of r rep s])
  next
    case (Some a)
    obtain i n c where a: "a = (i, n, c)" by (cases a)
    from search_sound [of r s i n c] Some a
    have bound: "i + n \<le> length s" and matched: "sem r (take n (drop i s)) None c" by auto
    from same [OF matched] have rep: "filter P rep = filter P (take n (drop i s))" by simp
    have "drop (i + n) s = drop n (drop i s)"
      by (simp add: add.commute)
    then have "drop i s = take n (drop i s) @ drop (i + n) s"
      by (simp only: append_take_drop_id)
    then have split: "s = take i s @ take n (drop i s) @ drop (i + n) s"
      by (metis append_take_drop_id)
    show ?thesis
    proof (cases "n = 0")
      case False
      from "1.IH"(2) [OF Some a [symmetric] refl False same]
      have "filter P (replace_all r rep (drop (i + n) s)) = filter P (drop (i + n) s)" .
      with Some a False rep have "filter P (replace_all r rep s) =
          filter P (take i s) @ filter P (take n (drop i s)) @ filter P (drop (i + n) s)"
        by (simp add: replace_all.simps [of r rep s])
      also have "\<dots> = filter P (take i s @ take n (drop i s) @ drop (i + n) s)" by simp
      finally show ?thesis using split by simp
    next
      case True
      with rep have empty: "filter P rep = []" by simp
      show ?thesis
      proof (cases "i < length s")
        case False
        with Some a True empty show ?thesis by (simp add: replace_all.simps [of r rep s])
      next
        case less: True
        from "1.IH"(1) [OF Some a [symmetric] refl True less same]
        have "filter P (replace_all r rep (drop (Suc i) s)) = filter P (drop (Suc i) s)" .
        with Some a True less empty have "filter P (replace_all r rep s) =
            filter P (take i s) @ filter P (s ! i # drop (Suc i) s)"
          by (simp add: replace_all.simps [of r rep s])
        also have "\<dots> = filter P (take i s @ s ! i # drop (Suc i) s)" by simp
        also have "\<dots> = filter P s" using less by (simp add: id_take_nth_drop [symmetric])
        finally show ?thesis .
      qed
    qed
  qed
qed

lemma sem_blank_lines:
  assumes "sem blank_lines u c c'"
  shows "filter (\<lambda>c. \<not> is_space c) u = []"
proof -
  have nl: "is_space (CHR 0x0A)" by (simp add: is_space_def)
  from assms obtain w where "u = NL @ w @ NL" "list_all is_space w"
    by (auto simp: blank_lines_def)
  with nl have "list_all is_space u" by (simp add: NL_def)
  then show ?thesis by (simp add: list_all_iff)
qed

lemma beautifyCSS_keeps:
  "filter (\<lambda>c. \<not> is_space c) (beautifyCSS css) = filter (\<lambda>c. \<not> is_space c) css"
proof -
  let ?P = "\<lambda>c. \<not> is_space c"
  have lit: "filter ?P (replace_all (Lit l) rep s) = filter ?P s" if "filter ?P l = filter ?P rep"
    for l rep s
    using that by (intro filter_replace_all) simp
  have "filter ?P NL = []" by (simp add: NL_def is_space_def)
  then have blank: "filter ?P (replace_all blank_lines NL s) = filter ?P s" for s
    by (intro filter_replace_all) (simp only: sem_blank_lines)
  have open_brace: "filter ?P ''{'' = filter ?P ('' {'' @ NL @ ''  '')"
    and close_brace: "filter ?P ''}'' = filter ?P (NL @ ''}'' @ NL)"
    and semicolon: "filter ?P '';'' = filter ?P ('';'' @ NL @ ''  '')"
    and comma: "filter ?P '','' = filter ?P ('','' @ NL @ ''  '')"
    by (simp_all add: NL_def is_space_def)
  show ?thesis
    unfolding beautifyCSS_def
    by (simp only: filter_trim blank lit [OF open_brace] lit [OF close_brace]
        lit [OF semicolon] lit [OF comma])
qed

text \<open>
  C8. \<open>beautifyCSS\<close> returns a string for every string: it has no error value and
  its loops end. Applied twice it gives the characters other than white space that
  it gives applied once, which are those of its input, in the same order.
\<close>

theorem beautifyCSS_idempotent_up_to_space:
  "filter (\<lambda>c. \<not> is_space c) (beautifyCSS (beautifyCSS x)) =
     filter (\<lambda>c. \<not> is_space c) (beautifyCSS x) \<and>
   filter (\<lambda>c. \<not> is_space c) (beautifyCSS x) = filter (\<lambda>c. \<not> is_space c) x"
  by (simp only: beautifyCSS_keeps)

section \<open>The matcher finds a match where there is one\<close>

lemma star_complete:
  "list_all p u \<Longrightarrow> k v \<noteq> None \<Longrightarrow> star p (u @ v) k \<noteq> None"
proof (induction u)
  case Nil
  then show ?case by (cases v) (auto split: option.splits)
next
  case (Cons x u)
  then show ?case by (auto split: option.splits)
qed

lemma bt_complete:
  "sem r u c0 c0' \<Longrightarrow> (\<forall>c'. k v c' \<noteq> None) \<Longrightarrow> bt r (u @ v) c k \<noteq> None"
proof (induction r arbitrary: u v c c0 c0' k)
  case (Lit l)
  then show ?case by (simp add: startsWith_def)
next
  case (One p)
  then show ?case by auto
next
  case (Star p)
  then show ?case by (simp add: star_complete)
next
  case (Plus p)
  then obtain x u' where "u = x # u'" "p x" "list_all p u'" by (cases u) auto
  with Plus.prems(2) show ?case by (simp add: star_complete)
next
  case (Seq a b)
  from Seq.prems(1) obtain u1 u2 c1 where
    u: "u = u1 @ u2" "sem a u1 c0 c1" "sem b u2 c1 c0'" by auto
  have "bt b (u2 @ v) c' k \<noteq> None" for c'
    using Seq.IH(2) [where u = u2 and ?c0.0 = c1 and c0' = c0' and k = k and v = v and c = c']
      u(3) Seq.prems(2) by simp
  then have "\<forall>c'. (\<lambda>s' c'. bt b s' c' k) (u2 @ v) c' \<noteq> None" by simp
  with Seq.IH(1) [where u = u1 and ?c0.0 = c0 and c0' = c1 and k = "\<lambda>s' c'. bt b s' c' k"
      and v = "u2 @ v" and c = c] u(2) u(1)
  show ?case by simp
next
  case (Alt a b)
  from Alt.prems(1) have "sem a u c0 c0' \<or> sem b u c0 c0'" by simp
  then show ?case
  proof
    assume "sem a u c0 c0'"
    with Alt.IH(1) [where u = u and ?c0.0 = c0 and c0' = c0' and k = k and v = v and c = c]
      Alt.prems(2)
    show ?thesis by (auto split: option.splits)
  next
    assume "sem b u c0 c0'"
    with Alt.IH(2) [where u = u and ?c0.0 = c0 and c0' = c0' and k = k and v = v and c = c]
      Alt.prems(2)
    show ?thesis by (auto split: option.splits)
  qed
next
  case (Opt a)
  from Opt.prems(1) have "(u = [] \<and> c0' = c0) \<or> sem a u c0 c0'" by simp
  then show ?case
  proof
    assume "u = [] \<and> c0' = c0"
    with Opt.prems(2) show ?thesis by (auto split: option.splits)
  next
    assume "sem a u c0 c0'"
    with Opt.IH [where u = u and ?c0.0 = c0 and c0' = c0' and k = k and v = v and c = c]
      Opt.prems(2)
    show ?thesis by (auto split: option.splits)
  qed
next
  case (Cap a)
  from Cap.prems(1) obtain c1 where a: "sem a u c0 c1" by auto
  have "\<forall>c'. (\<lambda>s' _. k s' (Some (take (length (u @ v) - length s') (u @ v)))) v c' \<noteq> None"
    using Cap.prems(2) by simp
  with Cap.IH [where u = u and ?c0.0 = c0 and c0' = c1 and v = v and c = c
      and k = "\<lambda>s' _. k s' (Some (take (length (u @ v) - length s') (u @ v)))"] a
  show ?case by simp
qed

lemma match_here_complete: "sem r u c0 c0' \<Longrightarrow> \<exists>n c. match_here r (u @ v) = Some (n, c)"
  unfolding match_here_def
  using bt_complete [of r u c0 c0' "\<lambda>s' c. Some (length (u @ v) - length s', c)" v None]
  by auto

lemma search_here: "match_here r s = Some (n, c) \<Longrightarrow> search r s = Some (0, n, c)"
  by (cases s) auto

text \<open>The first pattern that matches at the start of the text gives the first match.\<close>

lemma exec_patterns_first:
  assumes "match_here p s = Some (n, c)" and "\<forall>q \<in> set (p # ps). 0 < min_len q"
  shows "\<exists>ms. exec_patterns (p # ps) s = Some ((take n s, c) # ms)"
proof -
  from assms(1) have found: "search p s = Some (0, n, c)" by (rule search_here)
  with assms(2) have n: "n \<noteq> 0" using search_positive [of p s 0 n c] by simp
  obtain ms where "exec_loop p (drop n s) = Some ms"
    using exec_loop_returns [of p "drop n s"] assms(2) by auto
  with found n have first: "exec_loop p s = Some ((take n s, c) # ms)"
    by (simp add: exec_loop.simps [of p s])
  obtain ms' where "exec_patterns ps s = Some ms'"
    using exec_patterns_returns [of ps s] assms(2) by auto
  with first show ?thesis by simp
qed

section \<open>What a capture can be\<close>

text \<open>\<open>caps r Q\<close>: every text the capturing groups of \<open>r\<close> can match satisfies \<open>Q\<close>.\<close>

fun caps :: "rx \<Rightarrow> (string \<Rightarrow> bool) \<Rightarrow> bool" where
  "caps (Cap a) Q = (\<forall>u c c'. sem a u c c' \<longrightarrow> Q u)"
| "caps (Seq a b) Q = (caps a Q \<and> caps b Q)"
| "caps (Alt a b) Q = (caps a Q \<and> caps b Q)"
| "caps (Opt a) Q = caps a Q"
| "caps r Q = True"

lemma sem_caps: "sem r u c c' \<Longrightarrow> caps r Q \<Longrightarrow> c' = c \<or> (\<exists>v. c' = Some v \<and> Q v)"
proof (induction r arbitrary: u c c')
  case (Seq a b)
  from Seq.prems obtain u1 u2 c1 where "sem a u1 c c1" "sem b u2 c1 c'" by auto
  with Seq.IH(1) [of u1 c c1] Seq.IH(2) [of u2 c1 c'] Seq.prems(2) show ?case by auto
next
  case (Cap a)
  from Cap.prems(1) obtain c1 where "sem a u c c1" "c' = Some u" by auto
  moreover from Cap.prems(2) have "\<forall>u c c'. sem a u c c' \<longrightarrow> Q u" by simp
  ultimately have "c' = Some u \<and> Q u" by blast
  then show ?case by blast
next
  case (Alt a b)
  from Alt.prems have "(sem a u c c' \<and> caps a Q) \<or> (sem b u c c' \<and> caps b Q)" by auto
  then show ?case using Alt.IH by blast
next
  case (Opt a)
  from Opt.prems have "(u = [] \<and> c' = c) \<or> (sem a u c c' \<and> caps a Q)" by auto
  then show ?case using Opt.IH by blast
qed auto

lemma exec_loop_caps:
  "caps r Q \<Longrightarrow> exec_loop r s = Some ms \<Longrightarrow>
   \<forall>m \<in> set ms. snd m = None \<or> (\<exists>v. snd m = Some v \<and> Q v)"
proof (induction r s arbitrary: ms rule: exec_loop.induct)
  case (1 r s)
  show ?case
  proof (cases "search r s")
    case None
    with "1.prems" show ?thesis by (simp add: exec_loop.simps [of r s])
  next
    case (Some a)
    obtain i n c where a: "a = (i, n, c)" by (cases a)
    from "1.prems"(2) Some a have n: "n \<noteq> 0"
      by (auto simp: exec_loop.simps [of r s] split: if_splits)
    from "1.prems"(2) Some a n obtain ms' where
      ms': "exec_loop r (drop (i + n) s) = Some ms'" "ms = (take n (drop i s), c) # ms'"
      by (auto simp: exec_loop.simps [of r s] split: option.splits)
    from search_sound [of r s i n c] Some a have "sem r (take n (drop i s)) None c" by simp
    from sem_caps [OF this "1.prems"(1)] have "c = None \<or> (\<exists>v. c = Some v \<and> Q v)" by auto
    with "1.IH" [OF Some a [symmetric] refl n "1.prems"(1) ms'(1)] ms'(2) show ?thesis by auto
  qed
qed

lemma exec_patterns_caps:
  "\<forall>p \<in> set ps. caps p Q \<Longrightarrow> exec_patterns ps s = Some ms \<Longrightarrow>
   \<forall>m \<in> set ms. snd m = None \<or> (\<exists>v. snd m = Some v \<and> Q v)"
proof (induction ps arbitrary: ms)
  case Nil
  then show ?case by simp
next
  case (Cons p ps)
  from Cons.prems(2) obtain m1 m2 where
    m: "exec_loop p s = Some m1" "exec_patterns ps s = Some m2" "ms = m1 @ m2"
    by (auto split: option.splits)
  from exec_loop_caps [OF _ m(1), of Q] Cons.IH [OF _ m(2)] Cons.prems(1) m(3)
  show ?case by auto
qed

section \<open>Component extraction\<close>

text \<open>\<open>no_cap r\<close>: the pattern has no capturing group.\<close>

fun no_cap :: "rx \<Rightarrow> bool" where
  "no_cap (Cap a) = False"
| "no_cap (Seq a b) = (no_cap a \<and> no_cap b)"
| "no_cap (Alt a b) = (no_cap a \<and> no_cap b)"
| "no_cap (Opt a) = no_cap a"
| "no_cap r = True"

lemma sem_no_cap: "no_cap r \<Longrightarrow> sem r u c c' \<Longrightarrow> c' = c"
proof (induction r arbitrary: u c c')
  case (Seq a b)
  from Seq.prems obtain u1 u2 c1 where "sem a u1 c c1" "sem b u2 c1 c'" by auto
  with Seq.IH(1) [of u1 c c1] Seq.IH(2) [of u2 c1 c'] Seq.prems(1) show ?case by simp
qed auto

lemma sem_SeqD:
  "sem (Seq a b) u c c' \<Longrightarrow> \<exists>u1 u2 c1. u = u1 @ u2 \<and> sem a u1 c c1 \<and> sem b u2 c1 c'"
  by simp

lemma sem_SeqI: "sem a u1 c c1 \<Longrightarrow> sem b u2 c1 c' \<Longrightarrow> sem (Seq a b) (u1 @ u2) c c'"
  by auto

lemma sem_LitI: "sem (Lit l) l c c"
  by simp

lemma sem_OneI: "p x \<Longrightarrow> sem (One p) [x] c c"
  by simp

lemma sem_StarI: "list_all p u \<Longrightarrow> sem (Star p) u c c"
  by simp

lemma sem_PlusI: "u \<noteq> [] \<Longrightarrow> list_all p u \<Longrightarrow> sem (Plus p) u c c"
  by simp

lemma sem_OptI: "sem (Opt a) [] c c"
  by simp

lemma sem_CapI: "sem a u c c1 \<Longrightarrow> sem (Cap a) u c (Some u)"
  by auto

lemma space_not_alnum: "is_space x \<Longrightarrow> \<not> in_cls alnum_chars x"
  by (auto simp: is_space_def in_cls_def alnum_chars_def lower_chars_def upper_chars_def
      digit_chars_def)

lemma upper_not_space: "in_cls upper_chars x \<Longrightarrow> \<not> is_space x"
  by (auto simp: is_space_def in_cls_def upper_chars_def)

lemma upper_alnum: "in_cls upper_chars x \<Longrightarrow> in_cls alnum_chars x"
  by (simp add: in_cls_def alnum_chars_def)

text \<open>
  The start shared by the patterns for functions: the keyword, white space, the
  captured name, optional white space and the opening parenthesis.
\<close>

lemma declaration_head:
  assumes "sem (Seq (Lit kw) (Seq (Plus is_space) (Seq component_name
             (Seq (Star is_space) (Seq (Lit ''('') R))))) u c0 c"
    and "no_cap R"
  shows "\<exists>w1 nm w2 t. u = kw @ w1 @ nm @ w2 @ ''('' @ t \<and> w1 \<noteq> [] \<and> list_all is_space w1 \<and>
           list_all is_space w2 \<and> nm \<noteq> [] \<and> in_cls upper_chars (hd nm) \<and>
           list_all (in_cls alnum_chars) nm \<and> c = Some nm"
proof -
  from sem_SeqD [OF assms(1)] obtain k1 u1 d1 where
    1: "u = k1 @ u1" "sem (Lit kw) k1 c0 d1"
    "sem (Seq (Plus is_space) (Seq component_name (Seq (Star is_space) (Seq (Lit ''('') R)))) u1 d1 c"
    by blast
  from sem_SeqD [OF 1(3)] obtain w1 u2 d2 where
    2: "u1 = w1 @ u2" "sem (Plus is_space) w1 d1 d2"
    "sem (Seq component_name (Seq (Star is_space) (Seq (Lit ''('') R))) u2 d2 c"
    by blast
  from sem_SeqD [OF 2(3)] obtain nm u3 d3 where
    3: "u2 = nm @ u3" "sem component_name nm d2 d3"
    "sem (Seq (Star is_space) (Seq (Lit ''('') R)) u3 d3 c"
    by blast
  from sem_SeqD [OF 3(3)] obtain w2 u4 d4 where
    4: "u3 = w2 @ u4" "sem (Star is_space) w2 d3 d4" "sem (Seq (Lit ''('') R) u4 d4 c"
    by blast
  from sem_SeqD [OF 4(3)] obtain p t d5 where
    5: "u4 = p @ t" "sem (Lit ''('') p d4 d5" "sem R t d5 c"
    by blast
  from sem_no_cap [OF assms(2) 5(3)] 5(2) 4(2) have caps: "c = d3" by simp
  from 3(2) obtain x xs where
    6: "nm = x # xs" "in_cls upper_chars x" "list_all (in_cls alnum_chars) xs" "d3 = Some nm"
    by (auto simp: component_name_def)
  have shape: "u = kw @ w1 @ nm @ w2 @ ''('' @ t"
    using 1(1,2) 2(1) 3(1) 4(1) 5(1,2) by simp
  have spaces: "w1 \<noteq> []" "list_all is_space w1" "list_all is_space w2"
    using 2(2) 4(2) by simp_all
  from shape spaces 6 caps upper_alnum [OF 6(2)]
  have "u = kw @ w1 @ nm @ w2 @ ''('' @ t \<and> w1 \<noteq> [] \<and> list_all is_space w1 \<and>
           list_all is_space w2 \<and> nm \<noteq> [] \<and> in_cls upper_chars (hd nm) \<and>
           list_all (in_cls alnum_chars) nm \<and> c = Some nm"
    by simp
  then show ?thesis by blast
qed

lemma takeWhile_all: "list_all P xs \<Longrightarrow> (ys = [] \<or> \<not> P (hd ys)) \<Longrightarrow> takeWhile P (xs @ ys) = xs"
  by (simp add: takeWhile_append2 list_all_iff takeWhile_eq_Nil_iff)

lemma dropWhile_all: "list_all P xs \<Longrightarrow> (ys = [] \<or> \<not> P (hd ys)) \<Longrightarrow> dropWhile P (xs @ ys) = ys"
  by (simp add: dropWhile_append2 list_all_iff dropWhile_eq_self_iff)

text \<open>The rest of the pattern for function components, after the opening parenthesis.\<close>

definition function_component_tail :: rx where
  "function_component_tail =
     seqs [Star (not_cls '')''), Lit '')'', Star is_space,
           Lit ''{'', Star (not_cls ''}''), Lit ''return'', Plus is_space,
           Star (not_cls ''}''), jsx, Star (not_cls ''}''), Lit ''}'']"

lemma function_component_shape:
  "function_component =
     Seq (Lit ''function'') (Seq (Plus is_space) (Seq component_name
       (Seq (Star is_space) (Seq (Lit ''('') function_component_tail))))"
  by (simp add: function_component_def function_component_tail_def)

lemma function_component_tail_no_cap: "no_cap function_component_tail"
  by (simp add: function_component_tail_def jsx_def)

lemma function_declaration_matches:
  assumes "ws1 \<noteq> []" "list_all is_space ws1" "list_all is_space ws2" "list_all is_space ws3"
    and "ws4 \<noteq> []" "list_all is_space ws4"
    and "list_all (not_cls '')'') params"
    and "list_all (not_cls ''}'') b1" "list_all (not_cls ''}'') b2" "list_all (not_cls ''}'') b3"
  shows "\<exists>c. sem function_component
           (''function'' @ ws1 @ ''Header'' @ ws2 @ ''('' @ params @ '')'' @ ws3 @ ''{'' @ b1 @
            ''return'' @ ws4 @ b2 @ ''js'' @ b3 @ ''}'') None c"
proof -
  have name: "sem component_name ([CHR ''H''] @ ''eader'') None (Some ([CHR ''H''] @ ''eader''))"
    unfolding component_name_def
    by (rule sem_CapI sem_SeqI sem_OneI sem_StarI
        | simp add: in_cls_def upper_chars_def alnum_chars_def lower_chars_def)+
  have tail: "sem function_component_tail
      (params @ '')'' @ ws3 @ ''{'' @ b1 @ ''return'' @ ws4 @ b2 @ (''js'' @ []) @ b3 @ ''}'')
      (Some ([CHR ''H''] @ ''eader'')) (Some ([CHR ''H''] @ ''eader''))"
    unfolding function_component_tail_def seqs.simps jsx_def
    by (rule sem_SeqI sem_LitI sem_StarI sem_PlusI sem_OptI assms)+
  have "sem function_component
      (''function'' @ ws1 @ ([CHR ''H''] @ ''eader'') @ ws2 @ ''('' @
       (params @ '')'' @ ws3 @ ''{'' @ b1 @ ''return'' @ ws4 @ b2 @ (''js'' @ []) @ b3 @ ''}''))
      None (Some ([CHR ''H''] @ ''eader''))"
    unfolding function_component_shape
    by (rule sem_SeqI sem_LitI sem_StarI sem_PlusI name tail assms)+
  then have "sem function_component
      (''function'' @ ws1 @ ''Header'' @ ws2 @ ''('' @ params @ '')'' @ ws3 @ ''{'' @ b1 @
       ''return'' @ ws4 @ b2 @ ''js'' @ b3 @ ''}'') None (Some ([CHR ''H''] @ ''eader''))"
    by (simp del: sem.simps)
  then show ?thesis by (rule exI)
qed

text \<open>Every capture of the three patterns starts with an upper-case letter.\<close>

definition capitalised :: "string \<Rightarrow> bool" where
  "capitalised v = (\<exists>x xs. v = x # xs \<and> x \<in> set upper_chars)"

lemma component_name_caps: "caps component_name capitalised"
  by (auto simp: component_name_def capitalised_def in_cls_def)

lemma patterns_caps: "\<forall>p \<in> set patterns. caps p capitalised"
  by (simp add: patterns_def function_component_def arrow_component_def class_component_def
      jsx_def component_name_caps)

lemma in_map_filter: "c \<in> set (List.map_filter g xs) \<Longrightarrow> \<exists>m \<in> set xs. g m = Some c"
  by (induction xs) (auto split: option.splits)

lemma upper_fixed: "list_all (\<lambda>x. toUpperCase_char x = x) upper_chars"
  by code_simp

lemma upper_toUpperCase: "x \<in> set upper_chars \<Longrightarrow> toUpperCase_char x = x"
  using upper_fixed by (simp only: list_all_iff)

lemma component_of_capitalised:
  assumes "snd m = None \<or> (\<exists>v. snd m = Some v \<and> capitalised v)"
    and "component_of f m = Some c"
  shows "capitalised (name c) \<and> ExtractedComponent.source c = f"
  using assms by (auto simp: component_of_def capitalised_def split: option.splits list.splits if_splits)

lemma components_capitalised:
  assumes "exec_patterns patterns t = Some ms"
  shows "\<forall>c \<in> set (List.map_filter (component_of f) ms).
           capitalised (name c) \<and> ExtractedComponent.source c = f"
proof
  fix c
  assume "c \<in> set (List.map_filter (component_of f) ms)"
  then obtain m where m: "m \<in> set ms" "component_of f m = Some c"
    using in_map_filter by fastforce
  from exec_patterns_caps [OF patterns_caps assms] m(1)
  have "snd m = None \<or> (\<exists>v. snd m = Some v \<and> capitalised v)" by blast
  from component_of_capitalised [OF this m(2)]
  show "capitalised (name c) \<and> ExtractedComponent.source c = f" .
qed
lemma stop_after_name:
  assumes "list_all is_space w"
  shows "w @ ''('' @ t = [] \<or> \<not> in_cls alnum_chars (hd (w @ ''('' @ t))"
proof (cases w)
  case Nil
  then show ?thesis
    by (simp add: in_cls_def alnum_chars_def lower_chars_def upper_chars_def digit_chars_def)
next
  case (Cons x xs)
  with assms have "is_space x" by simp
  with Cons show ?thesis by (simp add: space_not_alnum)
qed

lemma Header_alnum: "list_all (in_cls alnum_chars) ''Header''"
  by (simp add: in_cls_def alnum_chars_def lower_chars_def upper_chars_def digit_chars_def)

text \<open>
  A match of the function pattern at the start of a text that starts with
  \<open>function Header(\<close> captures \<open>Header\<close>.
\<close>

lemma Header_captured:
  assumes "ws1 \<noteq> []" "list_all is_space ws1" "list_all is_space ws2"
    and "match_here function_component (''function'' @ ws1 @ ''Header'' @ ws2 @ ''('' @ T) = Some (n, c)"
  shows "c = Some ''Header''"
proof -
  let ?js = "''function'' @ ws1 @ ''Header'' @ ws2 @ ''('' @ T"
  from match_here_sound [OF assms(4)] have "sem function_component (take n ?js) None c" by simp
  from declaration_head [OF this [unfolded function_component_shape] function_component_tail_no_cap]
  obtain w1 nm w2 t where h: "take n ?js = ''function'' @ w1 @ nm @ w2 @ ''('' @ t"
    "w1 \<noteq> []" "list_all is_space w1" "list_all is_space w2" "nm \<noteq> []"
    "in_cls upper_chars (hd nm)" "list_all (in_cls alnum_chars) nm" "c = Some nm"
    by blast
  have "?js = take n ?js @ drop n ?js" by (simp only: append_take_drop_id)
  with h(1) have "?js = (''function'' @ w1 @ nm @ w2 @ ''('' @ t) @ drop n ?js" by simp
  then have eq1: "ws1 @ ''Header'' @ ws2 @ ''('' @ T = w1 @ nm @ w2 @ ''('' @ t @ drop n ?js"
    by simp
  have "takeWhile is_space (ws1 @ ''Header'' @ ws2 @ ''('' @ T) = ws1"
    using assms(2) by (intro takeWhile_all) (simp_all add: is_space_def)
  moreover have "takeWhile is_space (w1 @ nm @ w2 @ ''('' @ t @ drop n ?js) = w1"
    using h(3,5,6) by (intro takeWhile_all) (simp_all add: upper_not_space)
  ultimately have w1: "w1 = ws1" using eq1 by simp
  with eq1 have eq2: "''Header'' @ ws2 @ ''('' @ T = nm @ w2 @ ''('' @ t @ drop n ?js" by simp
  have "takeWhile (in_cls alnum_chars) (''Header'' @ ws2 @ ''('' @ T) = ''Header''"
    using Header_alnum stop_after_name [OF assms(3)] by (rule takeWhile_all)
  moreover have "takeWhile (in_cls alnum_chars) (nm @ w2 @ ''('' @ t @ drop n ?js) = nm"
    using h(7) stop_after_name [OF h(4)] by (rule takeWhile_all)
  ultimately have "nm = ''Header''" using eq2 by simp
  with h(8) show ?thesis by simp
qed

lemma no_component_in_markup:
  "exec_patterns patterns ''function Header() { return <div>Hello</div>; }'' = Some []"
  by code_simp

lemma no_component_behind_brace:
  "exec_patterns patterns ''function Header() { if (a) { b() } return <div>jsx</div> }'' = Some []"
  by code_simp


lemma swallowed_declaration:
  "exec_patterns patterns ''function Foo() { function Header() { return jsx(1); } }'' =
     Some [(''function Foo() { function Header() { return jsx(1); }'', Some ''Foo'')]"
  by code_simp

lemma component_inside_header:
  "exec_patterns patterns ''function header() { const A = () => { return jsx }; return jsx(1) }'' =
     Some [(''const A = () => { return jsx }'', Some ''A'')]"
  by code_simp

text \<open>Where the search finds a match, and what it finds in a suffix of the text.\<close>

lemma search_zero: "search r s = Some (0, n, c) \<Longrightarrow> match_here r s = Some (n, c)"
  by (cases s) (auto split: option.splits)

lemma search_drop_le:
  "search r s = Some (i, n, c) \<Longrightarrow> k \<le> i \<Longrightarrow> search r (drop k s) = Some (i - k, n, c)"
proof (induction s arbitrary: i k)
  case Nil
  then show ?case by (auto split: option.splits)
next
  case (Cons x xs)
  show ?case
  proof (cases k)
    case 0
    with Cons.prems show ?thesis by simp
  next
    case (Suc k')
    with Cons.prems(2) obtain i' where i: "i = Suc i'" "k' \<le> i'" by (cases i) auto
    with Cons.prems(1) have "search r xs = Some (i', n, c)" by (auto split: option.splits)
    from Cons.IH [OF this i(2)] Suc i(1) show ?thesis by simp
  qed
qed

lemma search_at: "search r s = Some (i, n, c) \<Longrightarrow> match_here r (drop i s) = Some (n, c)"
proof -
  assume "search r s = Some (i, n, c)"
  from search_drop_le [OF this order_refl] have "search r (drop i s) = Some (0, n, c)" by simp
  then show ?thesis by (rule search_zero)
qed

lemma search_drop_None: "search r s = None \<Longrightarrow> search r (drop k s) = None"
proof (induction s arbitrary: k)
  case Nil
  then show ?case by simp
next
  case (Cons x xs)
  show ?case
  proof (cases k)
    case 0
    with Cons.prems show ?thesis by simp
  next
    case (Suc k')
    from Cons.prems have "search r xs = None" by (auto split: option.splits)
    from Cons.IH [OF this] Suc show ?thesis by simp
  qed
qed

text \<open>
  \<open>scan_clear r s k\<close>: the matches that the loop finds before position \<open>k\<close> of
  \<open>s\<close> end at or before \<open>k\<close>, so that the loop comes to search from a position
  \<open>p \<le> k\<close> with no match starting between \<open>p\<close> and \<open>k\<close>.
\<close>

function scan_clear :: "rx \<Rightarrow> string \<Rightarrow> nat \<Rightarrow> bool" where
  "scan_clear r s k =
     (case search r s of
        None \<Rightarrow> True
      | Some (i, n, c) \<Rightarrow>
          if k \<le> i then True
          else if n = 0 \<or> k < i + n then False
          else scan_clear r (drop (i + n) s) (k - (i + n)))"
  by pat_completeness auto
termination
  by (relation "measure (\<lambda>(r, s, k). length s)") (auto dest: search_le)

declare scan_clear.simps [simp del]

text \<open>
  When the scan is clear up to the end of \<open>pre\<close>, the loop over \<open>pre @ t\<close> ends
  with the matches of the loop over \<open>t\<close>.
\<close>

lemma exec_loop_skip:
  assumes positive: "0 < min_len r"
    and clear: "scan_clear r (pre @ t) (length pre)"
  shows "\<exists>ms1 ms2. exec_loop r (pre @ t) = Some (ms1 @ ms2) \<and> exec_loop r t = Some ms2"
  using clear
proof (induction "length pre" arbitrary: pre rule: less_induct)
  case less
  note clear = less.prems
  show ?case
  proof (cases "search r (pre @ t)")
    case None
    from search_drop_None [OF None, of "length pre"] have "search r t = None" by simp
    with None have "exec_loop r (pre @ t) = Some ([] @ [])" "exec_loop r t = Some []"
      by (simp_all add: exec_loop.simps [of r "pre @ t"] exec_loop.simps [of r t])
    then show ?thesis by blast
  next
    case (Some a)
    obtain i n c where a: "a = (i, n, c)" by (cases a)
    from Some a have found: "search r (pre @ t) = Some (i, n, c)" by simp
    from search_positive [OF positive found] have n: "n \<noteq> 0" by simp
    show ?thesis
    proof (cases "i < length pre")
      case True
      with clear found have ends: "i + n \<le> length pre"
        and next_clear: "scan_clear r (drop (i + n) (pre @ t)) (length pre - (i + n))"
        by (simp_all add: scan_clear.simps [of r "pre @ t"] split: if_splits)
      let ?pre = "drop (i + n) pre"
      have shorter: "length ?pre < length pre" using n True by simp
      have rest: "drop (i + n) (pre @ t) = ?pre @ t" using ends by simp
      from next_clear have "scan_clear r (?pre @ t) (length ?pre)"
        unfolding rest by simp
      from less.hyps [OF shorter this] obtain ms1 ms2 where
        ms: "exec_loop r (?pre @ t) = Some (ms1 @ ms2)" "exec_loop r t = Some ms2" by blast
      from found n ms(1) rest
      have "exec_loop r (pre @ t) = Some (((take n (drop i (pre @ t)), c) # ms1) @ ms2)"
        by (simp add: exec_loop.simps [of r "pre @ t"])
      with ms(2) show ?thesis by blast
    next
      case False
      then have le: "length pre \<le> i" by simp
      from search_drop_le [OF found le] have t: "search r t = Some (i - length pre, n, c)" by simp
      have same: "take n (drop (i - length pre) t) = take n (drop i (pre @ t))"
        "drop (i - length pre + n) t = drop (i + n) (pre @ t)"
        using le by simp_all
      obtain ms where ms: "exec_loop r (drop (i + n) (pre @ t)) = Some ms"
        using exec_loop_returns [OF positive] by blast
      from found n ms
      have "exec_loop r (pre @ t) = Some ([] @ (take n (drop i (pre @ t)), c) # ms)"
        by (simp add: exec_loop.simps [of r "pre @ t"])
      moreover from t n ms same have "exec_loop r t = Some ((take n (drop i (pre @ t)), c) # ms)"
        by (simp add: exec_loop.simps [of r t])
      ultimately show ?thesis by blast
    qed
  qed
qed

text \<open>
  The scan is clear, in particular, when every match that starts in \<open>pre\<close> ends in
  \<open>pre\<close>.
\<close>

lemma scan_clear_inside:
  assumes positive: "0 < min_len r"
    and inside: "\<forall>i < length pre. \<forall>n c.
           match_here r (drop i (pre @ t)) = Some (n, c) \<longrightarrow> i + n \<le> length pre"
  shows "scan_clear r (pre @ t) (length pre)"
  using inside
proof (induction "length pre" arbitrary: pre rule: less_induct)
  case less
  note H = less.prems
  show ?case
  proof (cases "search r (pre @ t)")
    case None
    then show ?thesis by (simp add: scan_clear.simps [of r "pre @ t"])
  next
    case (Some a)
    obtain i n c where a: "a = (i, n, c)" by (cases a)
    from Some a have found: "search r (pre @ t) = Some (i, n, c)" by simp
    from search_positive [OF positive found] have n: "n \<noteq> 0" by simp
    show ?thesis
    proof (cases "i < length pre")
      case True
      from search_at [OF found] H True have ends: "i + n \<le> length pre" by blast
      let ?pre = "drop (i + n) pre"
      have shorter: "length ?pre < length pre" using n True by simp
      have rest: "drop (i + n) (pre @ t) = ?pre @ t" using ends by simp
      have "\<forall>i' < length ?pre. \<forall>n' c'.
          match_here r (drop i' (?pre @ t)) = Some (n', c') \<longrightarrow> i' + n' \<le> length ?pre"
      proof (intro allI impI)
        fix i' n' c'
        assume i': "i' < length ?pre"
          and m: "match_here r (drop i' (?pre @ t)) = Some (n', c')"
        have "drop i' (?pre @ t) = drop (i' + (i + n)) (pre @ t)"
          by (simp only: rest [symmetric] drop_drop)
        with m have "match_here r (drop (i' + (i + n)) (pre @ t)) = Some (n', c')" by simp
        moreover have "i' + (i + n) < length pre" using i' by simp
        ultimately have "i' + (i + n) + n' \<le> length pre" using H by blast
        then show "i' + n' \<le> length ?pre" by simp
      qed
      from less.hyps [OF shorter this] have "scan_clear r (?pre @ t) (length ?pre)" .
      with found True n ends rest show ?thesis
        by (simp add: scan_clear.simps [of r "pre @ t"])
    next
      case False
      with found show ?thesis by (simp add: scan_clear.simps [of r "pre @ t"])
    qed
  qed
qed

lemma exec_loop_first:
  assumes "match_here p s = Some (n, c)" and "0 < min_len p"
  shows "\<exists>ms. exec_loop p s = Some ((take n s, c) # ms)"
proof -
  from assms(1) have found: "search p s = Some (0, n, c)" by (rule search_here)
  with assms(2) have n: "n \<noteq> 0" using search_positive [of p s 0 n c] by simp
  obtain ms where "exec_loop p (drop n s) = Some ms"
    using exec_loop_returns [of p "drop n s"] assms(2) by auto
  with found n show ?thesis by (simp add: exec_loop.simps [of p s])
qed

lemma map_filter_mem: "x \<in> set xs \<Longrightarrow> g x = Some y \<Longrightarrow> y \<in> set (List.map_filter g xs)"
  by (induction xs) (auto simp: map_filter_simps split: option.splits)

text \<open>Every match of the loop is a text the pattern matches, with its capture.\<close>

lemma exec_loop_sem:
  "exec_loop r s = Some ms \<Longrightarrow> \<forall>m \<in> set ms. sem r (fst m) None (snd m)"
proof (induction r s arbitrary: ms rule: exec_loop.induct)
  case (1 r s)
  show ?case
  proof (cases "search r s")
    case None
    with "1.prems" show ?thesis by (simp add: exec_loop.simps [of r s])
  next
    case (Some a)
    obtain i n c where a: "a = (i, n, c)" by (cases a)
    from "1.prems" Some a have n: "n \<noteq> 0"
      by (auto simp: exec_loop.simps [of r s] split: if_splits)
    from "1.prems" Some a n obtain ms' where
      ms': "exec_loop r (drop (i + n) s) = Some ms'" "ms = (take n (drop i s), c) # ms'"
      by (auto simp: exec_loop.simps [of r s] split: option.splits)
    from search_sound [of r s i n c] Some a have "sem r (take n (drop i s)) None c" by simp
    with "1.IH" [OF Some a [symmetric] refl n ms'(1)] ms'(2) show ?thesis by simp
  qed
qed

lemma exec_patterns_sem:
  "exec_patterns ps s = Some ms \<Longrightarrow> \<forall>m \<in> set ms. \<exists>p \<in> set ps. sem p (fst m) None (snd m)"
proof (induction ps arbitrary: ms)
  case Nil
  then show ?case by simp
next
  case (Cons p ps)
  from Cons.prems obtain m1 m2 where
    m: "exec_loop p s = Some m1" "exec_patterns ps s = Some m2" "ms = m1 @ m2"
    by (auto split: option.splits)
  from exec_loop_sem [OF m(1)] Cons.IH [OF m(2)] m(3) show ?case by auto
qed

text \<open>
  Each of the three patterns starts with a keyword, white space and the captured
  name, and captures nothing after it.
\<close>

lemma declaration_start:
  assumes "sem (Seq (Lit kw) (Seq (Plus is_space) (Seq component_name R))) u c0 c"
    and "no_cap R"
  shows "\<exists>w1 nm t. u = kw @ w1 @ nm @ t \<and> w1 \<noteq> [] \<and> list_all is_space w1 \<and> c = Some nm"
proof -
  from sem_SeqD [OF assms(1)] obtain k1 u1 d1 where
    1: "u = k1 @ u1" "sem (Lit kw) k1 c0 d1"
    "sem (Seq (Plus is_space) (Seq component_name R)) u1 d1 c"
    by blast
  from sem_SeqD [OF 1(3)] obtain w1 u2 d2 where
    2: "u1 = w1 @ u2" "sem (Plus is_space) w1 d1 d2" "sem (Seq component_name R) u2 d2 c"
    by blast
  from sem_SeqD [OF 2(3)] obtain nm t d3 where
    3: "u2 = nm @ t" "sem component_name nm d2 d3" "sem R t d3 c"
    by blast
  from sem_no_cap [OF assms(2) 3(3)] have "c = d3" .
  moreover from 3(2) have "d3 = Some nm" by (auto simp: component_name_def)
  ultimately have "u = kw @ w1 @ nm @ t \<and> w1 \<noteq> [] \<and> list_all is_space w1 \<and> c = Some nm"
    using 1(1,2) 2(1,2) 3(1) by simp
  then show ?thesis by blast
qed

definition declaration_keywords :: "string set" where
  "declaration_keywords = {''function'', ''const'', ''class''}"

lemma patterns_start:
  assumes "p \<in> set patterns" and "sem p u None c"
  shows "\<exists>kw \<in> declaration_keywords. \<exists>w1 nm t. u = kw @ w1 @ nm @ t \<and> w1 \<noteq> [] \<and> list_all is_space w1 \<and>
           c = Some nm"
proof -
  from assms(1) consider "p = function_component" | "p = arrow_component" | "p = class_component"
    by (auto simp: patterns_def)
  then show ?thesis
  proof cases
    case 1
    from assms(2) [unfolded 1 function_component_def seqs.simps] have "\<exists>w1 nm t. u = ''function'' @ w1 @ nm @ t \<and> w1 \<noteq> [] \<and>
        list_all is_space w1 \<and> c = Some nm"
      by (rule declaration_start) (simp add: jsx_def)
    then show ?thesis unfolding declaration_keywords_def by blast
  next
    case 2
    from assms(2) [unfolded 2 arrow_component_def seqs.simps] have "\<exists>w1 nm t. u = ''const'' @ w1 @ nm @ t \<and> w1 \<noteq> [] \<and>
        list_all is_space w1 \<and> c = Some nm"
      by (rule declaration_start) (simp add: jsx_def)
    then show ?thesis unfolding declaration_keywords_def by blast
  next
    case 3
    from assms(2) [unfolded 3 class_component_def seqs.simps] have "\<exists>w1 nm t. u = ''class'' @ w1 @ nm @ t \<and> w1 \<noteq> [] \<and>
        list_all is_space w1 \<and> c = Some nm"
      by (rule declaration_start) (simp add: jsx_def)
    then show ?thesis unfolding declaration_keywords_def by blast
  qed
qed

lemma component_of_code:
  assumes "component_of f m = Some c"
  shows "snd m = Some (name c) \<and> code c = fst m"
  using assms by (auto simp: component_of_def split: option.splits list.splits if_splits)

lemma components_start:
  assumes "exec_patterns patterns t = Some ms"
  shows "\<forall>c \<in> set (List.map_filter (component_of f) ms).
           \<exists>kw \<in> declaration_keywords. \<exists>w1 t'. w1 \<noteq> [] \<and> list_all is_space w1 \<and>
              code c = kw @ w1 @ name c @ t'"
proof
  fix c
  assume "c \<in> set (List.map_filter (component_of f) ms)"
  then obtain m where m: "m \<in> set ms" "component_of f m = Some c"
    using in_map_filter by fastforce
  from exec_patterns_sem [OF assms] m(1) obtain p where
    p: "p \<in> set patterns" "sem p (fst m) None (snd m)" by blast
  from patterns_start [OF p] obtain kw w1 nm t' where
    s: "kw \<in> declaration_keywords" "fst m = kw @ w1 @ nm @ t'" "w1 \<noteq> []" "list_all is_space w1"
    "snd m = Some nm" by blast
  from component_of_code [OF m(2)] s(2,5) have "code c = kw @ w1 @ name c @ t'" by simp
  with s(1,3,4) show "\<exists>kw \<in> declaration_keywords. \<exists>w1 t'. w1 \<noteq> [] \<and> list_all is_space w1 \<and>
              code c = kw @ w1 @ name c @ t'" by blast
qed

text \<open>No text of this form starts with \<open>function\<close>, white space and \<open>header\<close>.\<close>

lemma not_the_header_function:
  assumes "kw \<in> declaration_keywords" "list_all is_space w1" "nm = x # xs" "x \<in> set upper_chars"
    and "list_all is_space ws"
  shows "kw @ w1 @ nm @ t' \<noteq> ''function'' @ ws @ ''header'' @ T"
proof
  assume eq: "kw @ w1 @ nm @ t' = ''function'' @ ws @ ''header'' @ T"
  from assms(1) eq have "kw = ''function''" by (auto simp: declaration_keywords_def)
  with eq have eq1: "w1 @ nm @ t' = ws @ ''header'' @ T" by simp
  have x: "in_cls upper_chars x" using assms(4) by (simp add: in_cls_def)
  have "takeWhile is_space (w1 @ nm @ t') = w1"
    using assms(2,3) upper_not_space [OF x] by (intro takeWhile_all) simp_all
  moreover have "takeWhile is_space (ws @ ''header'' @ T) = ws"
    using assms(5) by (intro takeWhile_all) (simp_all add: is_space_def)
  ultimately have "w1 = ws" using eq1 by simp
  with eq1 assms(3) have "x = CHR ''h''" by simp
  with assms(4) show False by (simp add: upper_chars_def)
qed

text \<open>
  C7 fails as stated. A function \<open>Header\<close> that returns JSX markup gives no
  component: the pattern asks for the letters \<open>js\<close> after \<open>return\<close>. Nor does
  one whose body has a closing brace before the \<open>return\<close>, even with \<open>jsx\<close> in
  the markup. A function \<open>Header\<close> declared inside a function \<open>Foo\<close> is taken
  into the match of \<open>Foo\<close>, and only \<open>Foo\<close> is extracted. And a function
  \<open>header\<close> that declares a component \<open>A\<close> in its body gives the component
  \<open>A\<close>.
\<close>

theorem Header_returning_markup_not_extracted:
  "map_option components
     (extractReactComponents ''function Header() { return <div>Hello</div>; }'' ''bundle.js''
        (new_results example_site example_url ''job1'')) = Some [] \<and>
   map_option components
     (extractReactComponents ''function Header() { if (a) { b() } return <div>jsx</div> }''
        ''bundle.js'' (new_results example_site example_url ''job1'')) = Some [] \<and>
   map_option (\<lambda>r. map name (components r))
     (extractReactComponents ''function Foo() { function Header() { return jsx(1); } }''
        ''bundle.js'' (new_results example_site example_url ''job1'')) = Some [''Foo''] \<and>
   map_option (\<lambda>r. map name (components r))
     (extractReactComponents ''function header() { const A = () => { return jsx }; return jsx(1) }''
        ''bundle.js'' (new_results example_site example_url ''job1'')) = Some [''A'']"
  by (simp add: extractReactComponents_def new_results_def no_component_in_markup
      no_component_behind_brace swallowed_declaration component_inside_header
      component_of_def map_filter_simps toUpperCase_char_def lower_chars_def upper_chars_def)

text \<open>
  C7 as amended. Let the text be \<open>pre @ decl @ rest\<close>, where \<open>decl\<close> is a
  declaration \<open>function Header(...) { ... return ... js ... }\<close> (white space where
  the pattern allows it, no \<open>)\<close> in the parameters, no \<open>}\<close> between the opening
  brace and the closing one, the letters \<open>js\<close> somewhere after \<open>return\<close> and
  white space), and where the matches that the loop of the function pattern finds
  before the declaration end before it (none runs into the declaration). Then
  extraction returns, and one of the components it
  adds is named \<open>Header\<close>, with a code that starts where the declaration starts.
  For every text, extraction returns and every component it adds has a name that
  starts with an upper-case letter, so none is named \<open>header\<close>; its code is a
  keyword, white space, its name and the rest of the match, so it is not the code
  of a function named \<open>header\<close>.
\<close>

theorem Header_extracted_and_names_capitalised:
  assumes "ws1 \<noteq> []" "list_all is_space ws1" "list_all is_space ws2" "list_all is_space ws3"
    and "ws4 \<noteq> []" "list_all is_space ws4"
    and "list_all (not_cls '')'') params"
    and "list_all (not_cls ''}'') b1" "list_all (not_cls ''}'') b2" "list_all (not_cls ''}'') b3"
    and "decl = ''function'' @ ws1 @ ''Header'' @ ws2 @ ''('' @ params @ '')'' @ ws3 @ ''{'' @ b1 @
           ''return'' @ ws4 @ b2 @ ''js'' @ b3 @ ''}''"
    and "scan_clear function_component (pre @ decl @ rest) (length pre)"
  shows "(\<exists>cs. extractReactComponents (pre @ decl @ rest) f r =
            Some (r\<lparr>components := components r @ cs,
                    analysis := (analysis r)\<lparr>analysis_summary.components :=
                                  length (components r @ cs)\<rparr>\<rparr>) \<and>
            (\<exists>c \<in> set cs. name c = ''Header'' \<and> ExtractedComponent.source c = f \<and>
                           (\<exists>n. code c = take n (decl @ rest)))) \<and>
         (\<forall>t. \<exists>cs. extractReactComponents t f r =
            Some (r\<lparr>components := components r @ cs,
                    analysis := (analysis r)\<lparr>analysis_summary.components :=
                                  length (components r @ cs)\<rparr>\<rparr>) \<and>
            (\<forall>c \<in> set cs. (\<exists>x xs. name c = x # xs \<and> x \<in> set upper_chars) \<and>
                           name c \<noteq> ''header'' \<and> ExtractedComponent.source c = f \<and>
                           (\<exists>kw \<in> declaration_keywords. \<exists>w1 t'. w1 \<noteq> [] \<and> list_all is_space w1 \<and>
                              code c = kw @ w1 @ name c @ t') \<and>
                           (\<forall>ws T. list_all is_space ws \<longrightarrow>
                              code c \<noteq> ''function'' @ ws @ ''header'' @ T)))"
proof
  let ?js = "pre @ decl @ rest"
  from function_declaration_matches [OF assms(1-10)] assms(11) obtain c0 where
    "sem function_component decl None c0" by blast
  from match_here_complete [OF this, of rest] obtain n c where
    here: "match_here function_component (decl @ rest) = Some (n, c)" by blast
  from here assms(11) have "match_here function_component
      (''function'' @ ws1 @ ''Header'' @ ws2 @ ''('' @
       (params @ '')'' @ ws3 @ ''{'' @ b1 @ ''return'' @ ws4 @ b2 @ ''js'' @ b3 @ ''}'' @ rest)) =
      Some (n, c)" by simp
  from Header_captured [OF assms(1-3) this] have c: "c = Some ''Header''" .
  have positive: "0 < min_len function_component"
    using patterns_min_len by (simp add: patterns_def)
  from exec_loop_first [OF here positive] obtain ms where
    "exec_loop function_component (decl @ rest) = Some ((take n (decl @ rest), c) # ms)" by blast
  with exec_loop_skip [OF positive assms(12)] obtain ms1 where
    loop: "exec_loop function_component ?js = Some (ms1 @ (take n (decl @ rest), c) # ms)"
    by auto
  obtain ms' where "exec_patterns [arrow_component, class_component] ?js = Some ms'"
    using exec_patterns_returns [of "[arrow_component, class_component]" ?js] patterns_min_len
    by (auto simp: patterns_def)
  with loop have all: "exec_patterns patterns ?js =
      Some ((ms1 @ (take n (decl @ rest), c) # ms) @ ms')" (is "_ = Some ?ms")
    by (simp add: patterns_def)
  let ?c = "\<lparr>name = ''Header'', code = take n (decl @ rest), ExtractedComponent.source = f\<rparr>"
  have "component_of f (take n (decl @ rest), Some ''Header'') = Some ?c"
    using upper_toUpperCase [of "CHR ''H''"] by (simp add: component_of_def upper_chars_def)
  with c have "?c \<in> set (List.map_filter (component_of f) ?ms)"
    by (intro map_filter_mem [of "(take n (decl @ rest), c)"]) simp_all
  then have found: "\<exists>c \<in> set (List.map_filter (component_of f) ?ms).
      name c = ''Header'' \<and> ExtractedComponent.source c = f \<and> (\<exists>n. code c = take n (decl @ rest))"
    by (intro bexI [of _ ?c]) auto
  from all have "extractReactComponents ?js f r =
      Some (r\<lparr>components := components r @ List.map_filter (component_of f) ?ms,
              analysis := (analysis r)\<lparr>analysis_summary.components :=
                 length (components r @ List.map_filter (component_of f) ?ms)\<rparr>\<rparr>)"
    by (simp add: extractReactComponents_def Let_def)
  with found show "\<exists>cs. extractReactComponents ?js f r =
            Some (r\<lparr>components := components r @ cs,
                    analysis := (analysis r)\<lparr>analysis_summary.components :=
                                  length (components r @ cs)\<rparr>\<rparr>) \<and>
            (\<exists>c \<in> set cs. name c = ''Header'' \<and> ExtractedComponent.source c = f \<and>
                           (\<exists>n. code c = take n (decl @ rest)))"
    by (intro exI [of _ "List.map_filter (component_of f) ?ms"] conjI)
next
  show "\<forall>t. \<exists>cs. extractReactComponents t f r =
            Some (r\<lparr>components := components r @ cs,
                    analysis := (analysis r)\<lparr>analysis_summary.components :=
                                  length (components r @ cs)\<rparr>\<rparr>) \<and>
            (\<forall>c \<in> set cs. (\<exists>x xs. name c = x # xs \<and> x \<in> set upper_chars) \<and>
                           name c \<noteq> ''header'' \<and> ExtractedComponent.source c = f \<and>
                           (\<exists>kw \<in> declaration_keywords. \<exists>w1 t'. w1 \<noteq> [] \<and> list_all is_space w1 \<and>
                              code c = kw @ w1 @ name c @ t') \<and>
                           (\<forall>ws T. list_all is_space ws \<longrightarrow>
                              code c \<noteq> ''function'' @ ws @ ''header'' @ T))"
  proof
    fix t
    obtain ms where ms: "exec_patterns patterns t = Some ms"
      using exec_patterns_returns [OF patterns_min_len] by blast
    let ?cs = "List.map_filter (component_of f) ms"
    have lower: "CHR ''h'' \<notin> set upper_chars" by (simp add: upper_chars_def)
    have names: "(\<exists>x xs. name c = x # xs \<and> x \<in> set upper_chars) \<and>
        name c \<noteq> ''header'' \<and> ExtractedComponent.source c = f \<and>
        (\<exists>kw \<in> declaration_keywords. \<exists>w1 t'. w1 \<noteq> [] \<and> list_all is_space w1 \<and>
           code c = kw @ w1 @ name c @ t') \<and>
        (\<forall>ws T. list_all is_space ws \<longrightarrow> code c \<noteq> ''function'' @ ws @ ''header'' @ T)"
      if c: "c \<in> set ?cs" for c
    proof -
      from components_capitalised [OF ms, of f] c obtain x xs where
        name: "name c = x # xs" "x \<in> set upper_chars" and source: "ExtractedComponent.source c = f"
        by (auto simp: capitalised_def)
      from components_start [OF ms, of f] c obtain kw w1 t' where
        code: "kw \<in> declaration_keywords" "w1 \<noteq> []" "list_all is_space w1"
        "code c = kw @ w1 @ name c @ t'" by blast
      have other: "code c \<noteq> ''function'' @ ws @ ''header'' @ T" if "list_all is_space ws" for ws T
        unfolding code(4) using code(1,3) name that by (rule not_the_header_function)
      from name lower have "name c \<noteq> ''header''" by auto
      with name source code other show ?thesis by blast
    qed
    from ms have "extractReactComponents t f r =
        Some (r\<lparr>components := components r @ ?cs,
                analysis := (analysis r)\<lparr>analysis_summary.components :=
                  length (components r @ ?cs)\<rparr>\<rparr>)"
      by (simp add: extractReactComponents_def Let_def)
    with names show "\<exists>cs. extractReactComponents t f r =
            Some (r\<lparr>components := components r @ cs,
                    analysis := (analysis r)\<lparr>analysis_summary.components :=
                                  length (components r @ cs)\<rparr>\<rparr>) \<and>
            (\<forall>c \<in> set cs. (\<exists>x xs. name c = x # xs \<and> x \<in> set upper_chars) \<and>
                           name c \<noteq> ''header'' \<and> ExtractedComponent.source c = f \<and>
                           (\<exists>kw \<in> declaration_keywords. \<exists>w1 t'. w1 \<noteq> [] \<and> list_all is_space w1 \<and>
                              code c = kw @ w1 @ name c @ t') \<and>
                           (\<forall>ws T. list_all is_space ws \<longrightarrow>
                              code c \<noteq> ''function'' @ ws @ ''header'' @ T))"
      by (intro exI [of _ ?cs] conjI ballI) simp_all
  qed
qed

theorem Header_extracted_and_names_capitalised_witness:
  "\<exists>r' c. extractReactComponents
             ''var a = 1; function Foo() { return jsx(0); } function Header() { return jsx(1); } var b;''
             ''bundle.js'' (new_results example_site example_url ''job1'') = Some r' \<and>
          c \<in> set (components r') \<and> name c = ''Header'' \<and>
          ExtractedComponent.source c = ''bundle.js''"
proof -
  have space: "'' '' \<noteq> []" "list_all is_space '' ''" "list_all is_space []"
    by (simp_all add: is_space_def)
  have params: "list_all (not_cls '')'') []" by simp
  have body: "list_all (not_cls ''}'') '' ''" "list_all (not_cls ''}'') []"
    "list_all (not_cls ''}'') ''x(1); ''"
    by (simp_all add: not_cls_def)
  have decl: "''function Header() { return jsx(1); }'' =
      ''function'' @ '' '' @ ''Header'' @ [] @ ''('' @ [] @ '')'' @ '' '' @ ''{'' @ '' '' @
      ''return'' @ '' '' @ [] @ ''js'' @ ''x(1); '' @ ''}''"
    by simp
  have "scan_clear function_component
      ''var a = 1; function Foo() { return jsx(0); } function Header() { return jsx(1); } var b;''
      (length ''var a = 1; function Foo() { return jsx(0); } '')"
    by code_simp
  then have before: "scan_clear function_component
      (''var a = 1; function Foo() { return jsx(0); } '' @
       ''function Header() { return jsx(1); }'' @ '' var b;'')
      (length ''var a = 1; function Foo() { return jsx(0); } '')"
    by simp
  from Header_extracted_and_names_capitalised
    [OF space(1,2,3,2,1,2) params body(1,2,3) decl before, of "''bundle.js''"
      "new_results example_site example_url ''job1''"]
  show ?thesis by (auto simp: new_results_def)
qed

end
